theory Spec2Isabelle
  imports Main "HOL-Library.AList"
begin

section \<open>Coordinates and regions of interest\<close>

text \<open>
  The chunk node of gunpowder (\<^verbatim>\<open>gunpowder/nodes/chunk.py\<close>) works on
  \<^verbatim>\<open>Coordinate\<close> and \<^verbatim>\<open>Roi\<close> values. A coordinate is a tuple of Python integers, here
  an \<open>int list\<close>; a region of interest is an offset and a shape.
\<close>

type_synonym coordinate = "int list"

record roi =
  roi_offset :: coordinate
  roi_shape :: coordinate

text \<open>
  Modelled from the spec: the classes \<^verbatim>\<open>Coordinate\<close> (gunpowder/coordinate.py) and
  \<^verbatim>\<open>Roi\<close> (gunpowder/roi.py) are missing. Sections 3 and 4.1 of the specification
  give what the definitions from \<open>coord_add\<close> to \<open>get_bounding_box\<close> below model:
  elementwise addition and subtraction of coordinates of one dimensionality,
  \<open>begin = offset\<close>, \<open>end = offset + shape\<close>, a shift of a region by a coordinate
  (\<^verbatim>\<open>roi + c\<close>, \<^verbatim>\<open>roi - c\<close>), and an intersection that is an explicit "no overlap"
  result when the two regions are disjoint and never a region of negative shape.
\<close>

definition coord_add :: "coordinate \<Rightarrow> coordinate \<Rightarrow> coordinate" where
  "coord_add a b = map2 (+) a b"

definition coord_sub :: "coordinate \<Rightarrow> coordinate \<Rightarrow> coordinate" where
  "coord_sub a b = map2 (-) a b"

definition get_offset :: "roi \<Rightarrow> coordinate" where
  "get_offset r = roi_offset r"

definition get_shape :: "roi \<Rightarrow> coordinate" where
  "get_shape r = roi_shape r"

definition get_begin :: "roi \<Rightarrow> coordinate" where
  "get_begin r = roi_offset r"

definition get_end :: "roi \<Rightarrow> coordinate" where
  "get_end r = coord_add (roi_offset r) (roi_shape r)"

definition dims :: "roi \<Rightarrow> nat" where
  "dims r = length (roi_shape r)"

definition roi_add :: "roi \<Rightarrow> coordinate \<Rightarrow> roi" where
  "roi_add r c = r\<lparr>roi_offset := coord_add (roi_offset r) c\<rparr>"

definition roi_sub :: "roi \<Rightarrow> coordinate \<Rightarrow> roi" where
  "roi_sub r c = r\<lparr>roi_offset := coord_sub (roi_offset r) c\<rparr>"

definition intersect :: "roi \<Rightarrow> roi \<Rightarrow> roi option" where
  "intersect a b =
     (let lo = map2 max (get_begin a) (get_begin b);
          hi = map2 min (get_end a) (get_end b)
      in if list_ex (\<lambda>(l, h). h \<le> l) (zip lo hi) then None
         else Some \<lparr>roi_offset = lo, roi_shape = coord_sub hi lo\<rparr>)"

text \<open>
  The bounding box of a region, as the nodes under \<^verbatim>\<open>gunpowder/nodes\<close> use it to
  index arrays: one \<^verbatim>\<open>slice(begin, end)\<close> per axis.
\<close>

definition get_bounding_box :: "roi \<Rightarrow> (int \<times> int) list" where
  "get_bounding_box r = zip (get_begin r) (get_end r)"

section \<open>Requests and the chunk node\<close>

text \<open>
  Modelled from the spec: the enumeration \<^verbatim>\<open>VolumeType\<close> (gunpowder/volume.py) is
  missing; these are the members that the files under \<^verbatim>\<open>gunpowder/nodes\<close> name.
\<close>

datatype volume_type =
    RAW | ALPHA_MASK | GT_LABELS | GT_AFFINITIES | GT_MASK | PRED_AFFINITIES
  | GT_BM_PRESYN | GT_BM_POSTSYN
  | GT_MASK_EXCLUSIVEZONE_PRESYN | GT_MASK_EXCLUSIVEZONE_POSTSYN

text \<open>
  A \<^verbatim>\<open>BatchSpec\<close> is its dictionary \<^verbatim>\<open>volumes\<close>, kept as an association list in
  iteration order.
\<close>

type_synonym batch_spec = "(volume_type \<times> roi) list"

datatype error =
    KeyError
  | IndexError nat
  | ValueError
  | AssertionError
  | AttributeError
  | TooManyIndices

text \<open>
  The attributes of a \<^verbatim>\<open>Chunk\<close> object. \<^verbatim>\<open>requests\<close> (the queue of sub-requests) and
  \<^verbatim>\<open>num_requests\<close> exist only after \<^verbatim>\<open>setup\<close>, hence the options. The worker pool
  is not part of the state: what it hands back is an argument of \<open>provide\<close>.
\<close>

record chunk =
  chunk_spec_template :: batch_spec
  chunk_dims :: nat
  request :: batch_spec
  num_workers :: int
  requests :: "batch_spec list option"
  num_requests :: "nat option"

text \<open>
  \<^verbatim>\<open>Chunk.__init__\<close>: the dimensionality is that of the first template region, and
  every template region must have it. An empty template fails at \<^verbatim>\<open>keys()[0]\<close>.
\<close>

definition init :: "batch_spec \<Rightarrow> batch_spec \<Rightarrow> int \<Rightarrow> error + chunk" where
  "init req chunk_spec workers =
     (case chunk_spec of
        [] \<Rightarrow> Inl (IndexError 0)
      | (vt, r) # _ \<Rightarrow>
          if list_all (\<lambda>(vt', r'). dims r = dims r') chunk_spec
          then Inr \<lparr>chunk_spec_template = chunk_spec, chunk_dims = dims r,
                    request = req, num_workers = workers,
                    requests = None, num_requests = None\<rparr>
          else Inl AssertionError)"

section \<open>Building the schedule\<close>

text \<open>
  Modelled from the spec: \<^verbatim>\<open>BatchSpec.get_common_roi\<close> is missing. Section 4.2,
  step 1 of the specification, and the comment at its call in
  \<^verbatim>\<open>__prepare_requests\<close>, give the shape of its result: along each axis the
  smallest template shape over all entities.
\<close>

definition get_common_roi_shape :: "batch_spec \<Rightarrow> coordinate" where
  "get_common_roi_shape spec =
     (case map (\<lambda>(vt, r). get_shape r) spec of
        [] \<Rightarrow> []
      | s # ss \<Rightarrow> foldl (map2 min) s ss)"

text \<open>\<^verbatim>\<open>np.min(rows, axis=0)\<close> and \<^verbatim>\<open>np.max(rows, axis=0)\<close>; no rows is an error.\<close>

definition np_min_axis0 :: "int list list \<Rightarrow> error + int list" where
  "np_min_axis0 rows = (case rows of [] \<Rightarrow> Inl ValueError | r # rs \<Rightarrow> Inr (foldl (map2 min) r rs))"

definition np_max_axis0 :: "int list list \<Rightarrow> error + int list" where
  "np_max_axis0 rows = (case rows of [] \<Rightarrow> Inl ValueError | r # rs \<Rightarrow> Inr (foldl (map2 max) r rs))"

text \<open>
  The two loops over the template that collect, for each templated entity, the
  shift that puts its chunk at the beginning of its requested region, and the
  requested end minus the template shape. \<^verbatim>\<open>self.request.volumes[volume_type]\<close> is a
  dictionary lookup and raises for an entity that the request does not have.
\<close>

fun all_initial_offsets :: "batch_spec \<Rightarrow> batch_spec \<Rightarrow> error + coordinate list" where
  "all_initial_offsets req [] = Inr []"
| "all_initial_offsets req ((vt, r) # rest) =
     (case map_of req vt of
        None \<Rightarrow> Inl KeyError
      | Some rq \<Rightarrow>
          (case all_initial_offsets req rest of
             Inl e \<Rightarrow> Inl e
           | Inr offs \<Rightarrow> Inr (coord_sub (get_begin rq) (get_begin r) # offs)))"

fun all_max_offsets :: "batch_spec \<Rightarrow> batch_spec \<Rightarrow> error + coordinate list" where
  "all_max_offsets req [] = Inr []"
| "all_max_offsets req ((vt, r) # rest) =
     (case map_of req vt of
        None \<Rightarrow> Inl KeyError
      | Some rq \<Rightarrow>
          (case all_max_offsets req rest of
             Inl e \<Rightarrow> Inl e
           | Inr offs \<Rightarrow> Inr (coord_sub (get_end rq) (get_shape r) # offs)))"

text \<open>Writing one component of a numpy vector: out of range is an \<^verbatim>\<open>IndexError\<close>.\<close>

definition setitem :: "int list \<Rightarrow> nat \<Rightarrow> int \<Rightarrow> error + int list" where
  "setitem a i v = (if i < length a then Inr (a[i := v]) else Inl (IndexError i))"

text \<open>
  The loop \<^verbatim>\<open>for dim in range(roi.dims())\<close> that fills \<^verbatim>\<open>max_stride\<close> for one entity:
  \<open>rq\<close> is the requested region of the entity, \<open>ch\<close> the region of its chunk at the
  current offset.
\<close>

fun max_stride_loop ::
  "roi \<Rightarrow> roi \<Rightarrow> coordinate \<Rightarrow> coordinate \<Rightarrow> nat list \<Rightarrow> int list \<Rightarrow> error + int list" where
  "max_stride_loop rq ch end_off off [] max_stride = Inr max_stride"
| "max_stride_loop rq ch end_off off (dim # ds) max_stride =
     (case setitem max_stride dim
             (if get_end rq ! dim > get_end ch ! dim
              then get_begin rq ! dim - get_begin ch ! dim
              else end_off ! dim - off ! dim) of
        Inl e \<Rightarrow> Inl e
      | Inr max_stride' \<Rightarrow> max_stride_loop rq ch end_off off ds max_stride')"

text \<open>
  \<^verbatim>\<open>max_stride.clip(min_stride)\<close>: the lower bound is broadcast against the vector,
  which works when both have one length or the bound has length one.
\<close>

definition np_clip_min :: "int list \<Rightarrow> int list \<Rightarrow> error + int list" where
  "np_clip_min a lower =
     (if length lower = length a then Inr (map2 max a lower)
      else if length lower = 1 then Inr (map (\<lambda>x. max x (hd lower)) a)
      else if length a = 1 then Inr (map (\<lambda>l. max (hd a) l) lower)
      else Inl ValueError)"

text \<open>
  The loop over the template inside one step of the walk: it writes the chunk
  regions into the copy of the request and collects the clipped \<^verbatim>\<open>max_stride\<close> of
  every entity. The buffer is \<^verbatim>\<open>np.zeros([3])\<close> whatever the dimensionality.
\<close>

fun chunk_entities ::
  "batch_spec \<Rightarrow> coordinate \<Rightarrow> coordinate \<Rightarrow> coordinate \<Rightarrow> batch_spec \<Rightarrow>
   batch_spec \<Rightarrow> int list list \<Rightarrow> error + (batch_spec \<times> int list list)" where
  "chunk_entities req min_stride end_off off [] chunk_request max_strides =
     Inr (chunk_request, max_strides)"
| "chunk_entities req min_stride end_off off ((vt, r) # rest) chunk_request max_strides =
     (let ch = roi_add r off;
          chunk_request' = AList.update vt ch chunk_request
      in case map_of req vt of
           None \<Rightarrow> Inl KeyError
         | Some rq \<Rightarrow>
             (case max_stride_loop rq ch end_off off [0 ..< dims r] [0, 0, 0] of
                Inl e \<Rightarrow> Inl e
              | Inr max_stride \<Rightarrow>
                  (case np_clip_min max_stride min_stride of
                     Inl e \<Rightarrow> Inl e
                   | Inr clipped \<Rightarrow>
                       chunk_entities req min_stride end_off off rest chunk_request'
                         (max_strides @ [clipped]))))"

text \<open>
  The odometer at the end of one step: \<^verbatim>\<open>for d in range(self.dims)\<close> with its
  two \<^verbatim>\<open>break\<close>s. In the source the stride is a vector of floats that is added
  to an integer offset; its components are whole numbers, and the model computes
  with integers.
\<close>

function advance ::
  "nat \<Rightarrow> int list \<Rightarrow> coordinate \<Rightarrow> coordinate \<Rightarrow> nat \<Rightarrow> coordinate \<Rightarrow> coordinate" where
  "advance n stride begin_off end_off d off =
     (if d < n then
        (let off1 = off[d := off ! d + stride ! d] in
         if off1 ! d \<ge> end_off ! d then
           (if d = n - 1 then off1
            else advance n stride begin_off end_off (Suc d) (off1[d := begin_off ! d]))
         else off1)
      else off)"
  by pat_completeness auto
termination
  by (relation "measure (\<lambda>(n, stride, begin_off, end_off, d, off). n - d)") auto

declare advance.simps [simp del]

text \<open>\<^verbatim>\<open>(offset < end).all()\<close>\<close>

definition all_less :: "coordinate \<Rightarrow> coordinate \<Rightarrow> bool" where
  "all_less off end_off = list_all (\<lambda>(x, y). x < y) (zip off end_off)"

text \<open>
  The \<^verbatim>\<open>while\<close> loop of \<^verbatim>\<open>__prepare_requests\<close>. Nothing bounds the number of its
  iterations, so the result is an option: \<open>None\<close> is a walk that never ends.
  \<open>queue\<close> holds the sub-requests put so far, oldest first.
\<close>

partial_function (option) walk ::
  "chunk \<Rightarrow> coordinate \<Rightarrow> coordinate \<Rightarrow> coordinate \<Rightarrow> coordinate \<Rightarrow> batch_spec list \<Rightarrow>
   (error + batch_spec list) option" where
  "walk self min_stride begin_off end_off off queue =
     (if all_less off end_off then
        (case chunk_entities (request self) min_stride end_off off
                (chunk_spec_template self) (request self) [] of
           Inl e \<Rightarrow> Some (Inl e)
         | Inr (chunk_request, max_strides) \<Rightarrow>
             (case np_min_axis0 max_strides of
                Inl e \<Rightarrow> Some (Inl e)
              | Inr stride \<Rightarrow>
                  walk self min_stride begin_off end_off
                    (advance (chunk_dims self) stride begin_off end_off 0 off)
                    (queue @ [chunk_request])))
      else Some (Inr queue))"

text \<open>The three vectors that \<^verbatim>\<open>__prepare_requests\<close> computes before the walk.\<close>

definition walk_bounds :: "chunk \<Rightarrow> error + (coordinate \<times> coordinate \<times> coordinate)" where
  "walk_bounds self =
     (let min_stride = get_common_roi_shape (chunk_spec_template self) in
      case all_initial_offsets (request self) (chunk_spec_template self) of
        Inl e \<Rightarrow> Inl e
      | Inr initial \<Rightarrow>
          (case np_min_axis0 initial of
             Inl e \<Rightarrow> Inl e
           | Inr begin_off \<Rightarrow>
               (case all_max_offsets (request self) (chunk_spec_template self) of
                  Inl e \<Rightarrow> Inl e
                | Inr maxs \<Rightarrow>
                    (case np_max_axis0 maxs of
                       Inl e \<Rightarrow> Inl e
                     | Inr m \<Rightarrow> Inr (min_stride, begin_off, coord_add m min_stride)))))"

text \<open>
  \<^verbatim>\<open>__prepare_requests\<close>: the schedule, in the order in which the sub-requests are
  put into the queue.
\<close>

definition schedule :: "chunk \<Rightarrow> (error + batch_spec list) option" where
  "schedule self =
     (case walk_bounds self of
        Inl e \<Rightarrow> Some (Inl e)
      | Inr (min_stride, begin_off, end_off) \<Rightarrow>
          walk self min_stride begin_off end_off begin_off [])"

definition prepare_requests :: "chunk \<Rightarrow> (error + chunk) option" where
  "prepare_requests self =
     (case schedule self of
        None \<Rightarrow> None
      | Some (Inl e) \<Rightarrow> Some (Inl e)
      | Some (Inr queue) \<Rightarrow>
          Some (Inr (self\<lparr>requests := Some queue, num_requests := Some (length queue)\<rparr>)))"

text \<open>\<^verbatim>\<open>Chunk.setup\<close> builds the schedule (and starts the worker pool, if there is one).\<close>

definition chunk_setup :: "chunk \<Rightarrow> (error + chunk) option" where
  "chunk_setup self = prepare_requests self"

section \<open>Arrays\<close>

text \<open>
  A numpy array: its shape and its elements by index. Only indices inside the
  shape mean anything. Element types and their conversion on assignment are not
  modelled: an assignment copies values as they are.
\<close>

record 'v ndarray =
  nd_shape :: "nat list"
  nd_data :: "nat list \<Rightarrow> 'v"

text \<open>\<^verbatim>\<open>np.zeros(shape)\<close>: a negative dimension is an error.\<close>

definition np_zeros :: "int list \<Rightarrow> error + ('v::zero) ndarray" where
  "np_zeros shp =
     (if list_ex (\<lambda>n. n < 0) shp then Inl ValueError
      else Inr \<lparr>nd_shape = map nat shp, nd_data = (\<lambda>idx. 0)\<rparr>)"

text \<open>
  The two kinds of slice that \<^verbatim>\<open>__fill\<close> builds: \<^verbatim>\<open>slice(None)\<close> and
  \<^verbatim>\<open>slice(start, stop)\<close>. On an axis of length \<open>n\<close> a slice selects \<open>count\<close> indices
  from \<open>start\<close> on; a negative bound counts from the end, and bounds are cut to
  the axis, as Python does.
\<close>

datatype slice = SliceAll | Slice int int

definition clamp_index :: "nat \<Rightarrow> int \<Rightarrow> nat" where
  "clamp_index n i = (if i < 0 then nat (max 0 (i + int n)) else min (nat i) n)"

fun slice_range :: "nat \<Rightarrow> slice \<Rightarrow> nat \<times> nat" where
  "slice_range n SliceAll = (0, n)"
| "slice_range n (Slice start stop) =
     (clamp_index n start, clamp_index n stop - clamp_index n start)"

text \<open>
  An index tuple of slices against a shape: fewer slices than axes leave the
  trailing axes whole, more are an \<^verbatim>\<open>IndexError\<close> (too many indices).
\<close>

definition slice_ranges :: "nat list \<Rightarrow> slice list \<Rightarrow> error + (nat \<times> nat) list" where
  "slice_ranges shp sl =
     (if length shp < length sl then Inl TooManyIndices
      else Inr (map2 slice_range shp (sl @ replicate (length shp - length sl) SliceAll)))"

text \<open>
  \<^verbatim>\<open>b[slices]\<close>: the selected block as an array of its own. \<open>take_block\<close> reads
  the block that a list of ranges (start and count per axis) selects.
\<close>

definition take_block :: "'v ndarray \<Rightarrow> (nat \<times> nat) list \<Rightarrow> 'v ndarray" where
  "take_block b rs =
     \<lparr>nd_shape = map snd rs, nd_data = (\<lambda>idx. nd_data b (map2 (+) (map fst rs) idx))\<rparr>"

definition getitem_slices :: "'v ndarray \<Rightarrow> slice list \<Rightarrow> error + 'v ndarray" where
  "getitem_slices b sl =
     (case slice_ranges (nd_shape b) sl of
        Inl e \<Rightarrow> Inl e
      | Inr rs \<Rightarrow> Inr (take_block b rs))"

text \<open>
  Broadcasting a value of shape \<open>src\<close> into a block of shape \<open>dst\<close> on assignment:
  surplus leading axes of the value must have length one and are dropped, missing
  ones are added, and then each axis must agree or have length one in the value.
  The result maps an index of the block to the index of the value read there.
\<close>

definition broadcast_index :: "nat list \<Rightarrow> nat list \<Rightarrow> (nat list \<Rightarrow> nat list) option" where
  "broadcast_index src dst =
     (let k = length src - length dst;
          src' = drop k src;
          pad = length dst - length src'
      in if list_all (\<lambda>n. n = 1) (take k src)
            \<and> list_all (\<lambda>(s, d). s = d \<or> s = 1) (zip src' (drop pad dst))
         then Some (\<lambda>idx. replicate k 0 @ map2 (\<lambda>s i. if s = 1 then 0 else i) src' (drop pad idx))
         else None)"

definition in_ranges :: "(nat \<times> nat) list \<Rightarrow> nat list \<Rightarrow> bool" where
  "in_ranges rs idx =
     (length idx = length rs \<and> list_all (\<lambda>((start, count), i). start \<le> i \<and> i < start + count) (zip rs idx))"

text \<open>
  \<^verbatim>\<open>a[slices] = v\<close>: the block of \<open>a\<close> is overwritten, the rest of \<open>a\<close> is kept.
  \<open>put_block\<close> writes the value into the block that a list of ranges selects.
\<close>

definition put_block :: "'v ndarray \<Rightarrow> (nat \<times> nat) list \<Rightarrow> 'v ndarray \<Rightarrow> error + 'v ndarray" where
  "put_block a rs v =
     (case broadcast_index (nd_shape v) (map snd rs) of
        None \<Rightarrow> Inl ValueError
      | Some f \<Rightarrow>
          Inr (a\<lparr>nd_data :=
                 (\<lambda>idx. if in_ranges rs idx
                         then nd_data v (f (map2 (-) idx (map fst rs)))
                         else nd_data a idx)\<rparr>))"

definition setitem_slices :: "'v ndarray \<Rightarrow> slice list \<Rightarrow> 'v ndarray \<Rightarrow> error + 'v ndarray" where
  "setitem_slices a sl v =
     (case slice_ranges (nd_shape a) sl of
        Inl e \<Rightarrow> Inl e
      | Inr rs \<Rightarrow> put_block a rs v)"

section \<open>Assembling the batch\<close>

text \<open>
  \<^verbatim>\<open>Chunk.__fill\<close>: \<open>a\<close> is the output array with region \<open>roi_a\<close>, \<open>b\<close> the array
  of a sub-batch with region \<open>roi_b\<close>. The result is the new content of \<open>a\<close>.
\<close>

definition fill :: "'v ndarray \<Rightarrow> 'v ndarray \<Rightarrow> roi \<Rightarrow> roi \<Rightarrow> error + 'v ndarray" where
  "fill a b roi_a roi_b =
     (case intersect roi_a roi_b of
        None \<Rightarrow> Inr a
      | Some common_roi \<Rightarrow>
          (let common_in_a_roi = roi_sub common_roi (get_offset roi_a);
               common_in_b_roi = roi_sub common_roi (get_offset roi_b);
               slices_a = map (\<lambda>(s, e). Slice s e) (get_bounding_box common_in_a_roi);
               slices_b = map (\<lambda>(s, e). Slice s e) (get_bounding_box common_in_b_roi);
               pad = length (nd_shape a) > length slices_a;
               slices_a' = (if pad
                  then replicate (length (nd_shape a) - length slices_a) SliceAll @ slices_a
                  else slices_a);
               slices_b' = (if pad
                  then replicate (length (nd_shape b) - length slices_b) SliceAll @ slices_b
                  else slices_b)
           in case getitem_slices b slices_b' of
                Inl e \<Rightarrow> Inl e
              | Inr v \<Rightarrow> setitem_slices a slices_a' v))"

record ('v, 'r) volume =
  vol_data :: "'v ndarray"
  vol_roi :: roi
  vol_resolution :: 'r
  vol_interpolate :: bool

text \<open>A \<^verbatim>\<open>Batch\<close> is its dictionary \<^verbatim>\<open>volumes\<close>.\<close>

type_synonym ('v, 'r) batch = "(volume_type \<times> ('v, 'r) volume) list"

text \<open>The dictionary literal in \<^verbatim>\<open>__setup_batch\<close>.\<close>

definition interpolate_table :: "volume_type \<Rightarrow> bool option" where
  "interpolate_table =
     map_of [(RAW, True), (GT_LABELS, False), (GT_AFFINITIES, False), (GT_MASK, False),
             (PRED_AFFINITIES, False)]"

text \<open>
  \<^verbatim>\<open>Chunk.__setup_batch\<close>, a loop over the entities of the request. In the
  arguments of \<^verbatim>\<open>Volume(...)\<close> the array is made before the resolution is read.
\<close>

fun setup_batch_loop ::
  "batch_spec \<Rightarrow> ('v::zero, 'r) batch \<Rightarrow> ('v, 'r) batch \<Rightarrow> error + ('v, 'r) batch" where
  "setup_batch_loop [] chunk_batch batch = Inr batch"
| "setup_batch_loop ((volume_type, r) # rest) chunk_batch batch =
     (let shp = (if volume_type = PRED_AFFINITIES \<or> volume_type = GT_AFFINITIES
                 then 3 # get_shape r else get_shape r)
      in case interpolate_table volume_type of
           None \<Rightarrow> Inl KeyError
         | Some interp \<Rightarrow>
             (case np_zeros shp of
                Inl e \<Rightarrow> Inl e
              | Inr zeros \<Rightarrow>
                  (case map_of chunk_batch RAW of
                     None \<Rightarrow> Inl KeyError
                   | Some raw \<Rightarrow>
                       setup_batch_loop rest chunk_batch
                         (AList.update volume_type
                            \<lparr>vol_data = zeros, vol_roi = r,
                             vol_resolution = vol_resolution raw,
                             vol_interpolate = interp\<rparr> batch))))"

definition setup_batch :: "batch_spec \<Rightarrow> ('v::zero, 'r) batch \<Rightarrow> error + ('v, 'r) batch" where
  "setup_batch req chunk_batch = setup_batch_loop req chunk_batch []"

text \<open>
  The loop of \<^verbatim>\<open>provide\<close> over the volumes of one sub-batch, filling each into the
  output volume of the same type.
\<close>

fun fill_volumes ::
  "batch_spec \<Rightarrow> ('v, 'r) batch \<Rightarrow> ('v, 'r) batch \<Rightarrow> error + ('v, 'r) batch" where
  "fill_volumes req [] batch = Inr batch"
| "fill_volumes req ((volume_type, vol) # rest) batch =
     (case map_of batch volume_type of
        None \<Rightarrow> Inl KeyError
      | Some out \<Rightarrow>
          (case map_of req volume_type of
             None \<Rightarrow> Inl KeyError
           | Some roi_a \<Rightarrow>
               (case fill (vol_data out) (vol_data vol) roi_a (vol_roi vol) of
                  Inl e \<Rightarrow> Inl e
                | Inr a' \<Rightarrow>
                    fill_volumes req rest
                      (AList.update volume_type (out\<lparr>vol_data := a'\<rparr>) batch))))"

text \<open>
  What \<^verbatim>\<open>provide\<close> reads and changes outside the \<^verbatim>\<open>Chunk\<close> object: the state of
  the upstream provider, and the sub-batches that the worker pool will hand out,
  in the order of its choosing.
\<close>

record ('v, 'r, 'u) env =
  upstream_state :: 'u
  pool_results :: "('v, 'r) batch list"

type_synonym ('v, 'r, 'u) upstream =
  "'u \<Rightarrow> batch_spec \<Rightarrow> (error + ('v, 'r) batch) \<times> 'u"

text \<open>
  Getting the next sub-batch. With more than one worker it comes from the pool;
  otherwise the next sub-request is taken from the queue and handed to the
  upstream provider. Both \<^verbatim>\<open>get\<close> calls wait for ever on nothing: the result
  \<open>None\<close>.
\<close>

definition get_chunk ::
  "('v, 'r, 'u) upstream \<Rightarrow> chunk \<Rightarrow> ('v, 'r, 'u) env \<Rightarrow>
   ((error + ('v, 'r) batch) \<times> chunk \<times> ('v, 'r, 'u) env) option" where
  "get_chunk request_batch self env =
     (if num_workers self > 1 then
        (case pool_results env of
           [] \<Rightarrow> None
         | c # cs \<Rightarrow> Some (Inr c, self, env\<lparr>pool_results := cs\<rparr>))
      else
        (case requests self of
           None \<Rightarrow> Some (Inl AttributeError, self, env)
         | Some [] \<Rightarrow> None
         | Some (chunk_request # rest) \<Rightarrow>
             (case request_batch (upstream_state env) chunk_request of
                (res, u') \<Rightarrow>
                  Some (res, self\<lparr>requests := Some rest\<rparr>, env\<lparr>upstream_state := u'\<rparr>))))"

text \<open>
  The loop \<^verbatim>\<open>for i in range(self.num_requests)\<close> of \<^verbatim>\<open>provide\<close>, with \<open>n\<close> rounds
  to go. \<open>batch\<close> is \<open>None\<close> until the first sub-batch has come.
\<close>

fun provide_loop ::
  "('v::zero, 'r, 'u) upstream \<Rightarrow> batch_spec \<Rightarrow> nat \<Rightarrow> ('v, 'r) batch option \<Rightarrow> chunk \<Rightarrow>
   ('v, 'r, 'u) env \<Rightarrow>
   ((error + ('v, 'r) batch option) \<times> chunk \<times> ('v, 'r, 'u) env) option" where
  "provide_loop request_batch req 0 batch self env = Some (Inr batch, self, env)"
| "provide_loop request_batch req (Suc n) batch self env =
     (case get_chunk request_batch self env of
        None \<Rightarrow> None
      | Some (Inl e, self', env') \<Rightarrow> Some (Inl e, self', env')
      | Some (Inr chunk_batch, self', env') \<Rightarrow>
          (case (case batch of None \<Rightarrow> setup_batch req chunk_batch | Some b \<Rightarrow> Inr b) of
             Inl e \<Rightarrow> Some (Inl e, self', env')
           | Inr b \<Rightarrow>
               (case fill_volumes req chunk_batch b of
                  Inl e \<Rightarrow> Some (Inl e, self', env')
                | Inr b' \<Rightarrow> provide_loop request_batch req n (Some b') self' env')))"

text \<open>
  \<^verbatim>\<open>Chunk.provide\<close>. The result \<open>Inr None\<close> is Python's \<^verbatim>\<open>None\<close>, returned when
  there was no sub-request at all.
\<close>

definition provide ::
  "('v::zero, 'r, 'u) upstream \<Rightarrow> chunk \<Rightarrow> batch_spec \<Rightarrow> ('v, 'r, 'u) env \<Rightarrow>
   ((error + ('v, 'r) batch option) \<times> chunk \<times> ('v, 'r, 'u) env) option" where
  "provide request_batch self req env =
     (case num_requests self of
        None \<Rightarrow> Some (Inl AttributeError, self, env)
      | Some n \<Rightarrow> provide_loop request_batch req n None self env)"

section \<open>Vocabulary of the properties\<close>

text \<open>
  The stride that one step of the walk computes at an offset, as \<open>walk\<close> does it.
\<close>

definition next_stride :: "chunk \<Rightarrow> coordinate \<Rightarrow> coordinate \<Rightarrow> coordinate \<Rightarrow> error + int list" where
  "next_stride self min_stride end_off off =
     (case chunk_entities (request self) min_stride end_off off
             (chunk_spec_template self) (request self) [] of
        Inl e \<Rightarrow> Inl e
      | Inr (chunk_request, max_strides) \<Rightarrow> np_min_axis0 max_strides)"

text \<open>
  The precondition of the scheduler: the template is not empty (\<^verbatim>\<open>__init__\<close> needs
  its first entry), every templated entity is in the request, and all regions
  involved have the dimensionality of the chunk node.
\<close>

definition well_formed :: "chunk \<Rightarrow> bool" where
  "well_formed self =
     (chunk_spec_template self \<noteq> []
      \<and> list_all (\<lambda>(vt, r).
            length (roi_offset r) = chunk_dims self \<and> length (roi_shape r) = chunk_dims self
            \<and> (case map_of (request self) vt of
                 None \<Rightarrow> False
               | Some rq \<Rightarrow> length (roi_offset rq) = chunk_dims self
                            \<and> length (roi_shape rq) = chunk_dims self))
          (chunk_spec_template self))"

text \<open>The requested region of an entity that the request has.\<close>

definition requested :: "chunk \<Rightarrow> volume_type \<Rightarrow> roi" where
  "requested self vt = the (map_of (request self) vt)"

text \<open>
  The stride of the specification (section 4.2, step 5), in its words. The
  candidate of one entity on axis \<open>d\<close>, for its requested region \<open>rq\<close> and its chunk
  region \<open>ch\<close> at the current offset: while the far edge of the chunk has not
  reached the far edge of the request, the requested begin minus the begin of the
  chunk; otherwise \<open>end\<close> minus the current offset. The stride is the minimum of
  the candidates over the entities, clamped below by \<open>min_stride\<close>.
\<close>

definition candidate :: "roi \<Rightarrow> roi \<Rightarrow> coordinate \<Rightarrow> coordinate \<Rightarrow> nat \<Rightarrow> int" where
  "candidate rq ch end_off off d =
     (if get_end ch ! d < get_end rq ! d
      then get_begin rq ! d - get_begin ch ! d
      else end_off ! d - off ! d)"

definition stride_spec :: "chunk \<Rightarrow> coordinate \<Rightarrow> coordinate \<Rightarrow> coordinate \<Rightarrow> nat \<Rightarrow> int" where
  "stride_spec self min_stride end_off off d =
     max (min_stride ! d)
       (Min ((\<lambda>(vt, r). candidate (requested self vt) (roi_add r off) end_off off d)
               ` set (chunk_spec_template self)))"

text \<open>The clipped stride vector of one entity, for one or three dimensions.\<close>

definition clipped :: "roi \<Rightarrow> roi \<Rightarrow> coordinate \<Rightarrow> coordinate \<Rightarrow> coordinate \<Rightarrow> int list" where
  "clipped rq ch min_stride end_off off =
     map (\<lambda>d. max (if d < length min_stride then candidate rq ch end_off off d else 0)
                 (min_stride ! (if length min_stride = 1 then 0 else d))) [0, 1, 2]"

text \<open>Every template region has a positive shape on every axis.\<close>

definition positive_shapes :: "chunk \<Rightarrow> bool" where
  "positive_shapes self =
     list_all (\<lambda>(vt, r). list_all (\<lambda>x. 0 < x) (roi_shape r)) (chunk_spec_template self)"

text \<open>
  A point lies in a region; and a point of an entity is covered by a schedule
  when it lies in the region that some sub-request gives to the entity.
\<close>

definition roi_has :: "roi \<Rightarrow> coordinate \<Rightarrow> bool" where
  "roi_has r p =
     (length p = length (roi_offset r)
      \<and> list_all (\<lambda>(x, (lo, hi)). lo \<le> x \<and> x < hi) (zip p (get_bounding_box r)))"

definition covered :: "volume_type \<Rightarrow> batch_spec list \<Rightarrow> coordinate \<Rightarrow> bool" where
  "covered vt subs p =
     list_ex (\<lambda>sub. case map_of sub vt of None \<Rightarrow> False | Some r \<Rightarrow> roi_has r p) subs"

text \<open>The regions of a request have no negative shape component.\<close>

definition nonneg_shapes :: "batch_spec \<Rightarrow> bool" where
  "nonneg_shapes req = list_all (\<lambda>(vt, r). list_all (\<lambda>x. 0 \<le> x) (roi_shape r)) req"

text \<open>
  Two readings of what \<^verbatim>\<open>provide\<close> did: whether it returned a batch, and the
  chunk node and environment it left.
\<close>

definition returns_batch ::
  "((error + ('v, 'r) batch option) \<times> chunk \<times> ('v, 'r, 'u) env) option \<Rightarrow> bool" where
  "returns_batch result =
     (case result of Some (Inr (Some batch), self', env') \<Rightarrow> True | _ \<Rightarrow> False)"

definition state_after ::
  "((error + ('v, 'r) batch option) \<times> chunk \<times> ('v, 'r, 'u) env) option \<Rightarrow>
   (chunk \<times> ('v, 'r, 'u) env) option" where
  "state_after result = map_option snd result"

text \<open>
  An upstream provider together with a log of the sub-requests it was called
  with, oldest first.
\<close>

definition logged :: "('v, 'r, 'u) upstream \<Rightarrow> ('v, 'r, 'u \<times> batch_spec list) upstream" where
  "logged request_batch =
     (\<lambda>(u, calls) chunk_request.
        case request_batch u chunk_request of
          (res, u') \<Rightarrow> (res, (u', calls @ [chunk_request])))"

text \<open>
  Words for the merge. A region is well-formed for \<open>n\<close> axes; an array fits a
  region when its shape is the leading (channel) axes followed by the shape of the
  region; a channel index is within the leading axes; one region lies inside
  another. The voxel of an array at a channel index and a position of the
  volume is the element at the position translated into the array.
\<close>

definition roi_ok :: "nat \<Rightarrow> roi \<Rightarrow> bool" where
  "roi_ok n r =
     (length (roi_offset r) = n \<and> length (roi_shape r) = n
      \<and> list_all (\<lambda>x. 0 \<le> x) (roi_shape r))"

definition array_fits :: "'v ndarray \<Rightarrow> nat list \<Rightarrow> roi \<Rightarrow> bool" where
  "array_fits a lead r = (nd_shape a = lead @ map nat (roi_shape r))"

definition channel_ok :: "nat list \<Rightarrow> nat list \<Rightarrow> bool" where
  "channel_ok lead ch = (length ch = length lead \<and> list_all (\<lambda>(c, n). c < n) (zip ch lead))"

definition roi_inside :: "nat \<Rightarrow> roi \<Rightarrow> roi \<Rightarrow> bool" where
  "roi_inside n c r =
     list_all (\<lambda>k. roi_offset r ! k \<le> roi_offset c ! k
                \<and> roi_offset c ! k + roi_shape c ! k \<le> roi_offset r ! k + roi_shape r ! k)
       [0 ..< n]"

definition voxel :: "'v ndarray \<Rightarrow> roi \<Rightarrow> nat list \<Rightarrow> coordinate \<Rightarrow> 'v" where
  "voxel a r ch p = nd_data a (ch @ map nat (coord_sub p (roi_offset r)))"

section \<open>Instances\<close>

text \<open>
  The one-dimensional scenario of the specification: the request is the region
  at offset 0 of shape 100, the template the region at offset 0 of shape 30.
\<close>

definition scenario :: chunk where
  "scenario =
     \<lparr>chunk_spec_template = [(RAW, \<lparr>roi_offset = [0], roi_shape = [30]\<rparr>)],
      chunk_dims = 1,
      request = [(RAW, \<lparr>roi_offset = [0], roi_shape = [100]\<rparr>)],
      num_workers = 1, requests = None, num_requests = None\<rparr>"

text \<open>The sub-request that puts a one-dimensional chunk of shape 30 at \<open>x\<close>.\<close>

definition raw_chunk_at :: "int \<Rightarrow> batch_spec" where
  "raw_chunk_at x = [(RAW, \<lparr>roi_offset = [x], roi_shape = [30]\<rparr>)]"

text \<open>Two entities with centred templates of shapes 50 and 30 on one axis.\<close>

definition two_entities :: chunk where
  "two_entities =
     \<lparr>chunk_spec_template =
        [(RAW, \<lparr>roi_offset = [0], roi_shape = [50]\<rparr>),
         (GT_LABELS, \<lparr>roi_offset = [10], roi_shape = [30]\<rparr>)],
      chunk_dims = 1,
      request =
        [(RAW, \<lparr>roi_offset = [0], roi_shape = [200]\<rparr>),
         (GT_LABELS, \<lparr>roi_offset = [10], roi_shape = [180]\<rparr>)],
      num_workers = 1, requests = None, num_requests = None\<rparr>"

text \<open>
  Chunk nodes of two and of five dimensions, and one of two dimensions whose
  request is an empty region.
\<close>

definition flat_empty :: chunk where
  "flat_empty =
     \<lparr>chunk_spec_template = [(RAW, \<lparr>roi_offset = [0, 0], roi_shape = [10, 10]\<rparr>)],
      chunk_dims = 2,
      request = [(RAW, \<lparr>roi_offset = [0, 0], roi_shape = [0, 0]\<rparr>)],
      num_workers = 1, requests = None, num_requests = None\<rparr>"

definition flat :: chunk where
  "flat =
     \<lparr>chunk_spec_template = [(RAW, \<lparr>roi_offset = [0, 0], roi_shape = [10, 10]\<rparr>)],
      chunk_dims = 2,
      request = [(RAW, \<lparr>roi_offset = [0, 0], roi_shape = [20, 20]\<rparr>)],
      num_workers = 1, requests = None, num_requests = None\<rparr>"

definition five_dims :: chunk where
  "five_dims =
     \<lparr>chunk_spec_template =
        [(RAW, \<lparr>roi_offset = [0, 0, 0, 0, 0], roi_shape = [10, 10, 10, 10, 10]\<rparr>)],
      chunk_dims = 5,
      request = [(RAW, \<lparr>roi_offset = [0, 0, 0, 0, 0], roi_shape = [20, 20, 20, 20, 20]\<rparr>)],
      num_workers = 1, requests = None, num_requests = None\<rparr>"

text \<open>A template of shape zero: the walk cannot move.\<close>

definition zero_shape :: chunk where
  "zero_shape =
     \<lparr>chunk_spec_template = [(RAW, \<lparr>roi_offset = [0], roi_shape = [0]\<rparr>)],
      chunk_dims = 1,
      request = [(RAW, \<lparr>roi_offset = [0], roi_shape = [100]\<rparr>)],
      num_workers = 1, requests = None, num_requests = None\<rparr>"

text \<open>
  A template of shape 30 centred at the origin, and two entities whose requests
  lie apart.
\<close>

definition centred_template :: chunk where
  "centred_template =
     \<lparr>chunk_spec_template = [(RAW, \<lparr>roi_offset = [-15], roi_shape = [30]\<rparr>)],
      chunk_dims = 1,
      request = [(RAW, \<lparr>roi_offset = [0], roi_shape = [100]\<rparr>)],
      num_workers = 1, requests = None, num_requests = None\<rparr>"

definition apart :: chunk where
  "apart =
     \<lparr>chunk_spec_template =
        [(RAW, \<lparr>roi_offset = [10], roi_shape = [10]\<rparr>),
         (GT_LABELS, \<lparr>roi_offset = [0], roi_shape = [30]\<rparr>)],
      chunk_dims = 1,
      request =
        [(RAW, \<lparr>roi_offset = [10], roi_shape = [10]\<rparr>),
         (GT_LABELS, \<lparr>roi_offset = [50], roi_shape = [10]\<rparr>)],
      num_workers = 1, requests = None, num_requests = None\<rparr>"

text \<open>The scenario after \<^verbatim>\<open>setup\<close>: four sub-requests in the queue.\<close>

definition scenario_ready :: chunk where
  "scenario_ready =
     scenario\<lparr>requests := Some [raw_chunk_at 0, raw_chunk_at 30, raw_chunk_at 60, raw_chunk_at 90],
              num_requests := Some 4\<rparr>"

text \<open>
  An upstream provider that answers every sub-request with one label volume and
  no raw volume, and an environment with nothing in the pool.
\<close>

definition labels_volume :: "(int, int list) volume" where
  "labels_volume =
     \<lparr>vol_data = \<lparr>nd_shape = [30], nd_data = (\<lambda>idx. 7)\<rparr>,
      vol_roi = \<lparr>roi_offset = [0], roi_shape = [30]\<rparr>,
      vol_resolution = [4], vol_interpolate = False\<rparr>"

definition labels_only :: "(int, int list, unit) upstream" where
  "labels_only u chunk_request = (Inr [(GT_LABELS, labels_volume)], u)"

definition env0 :: "(int, int list, unit) env" where
  "env0 = \<lparr>upstream_state = (), pool_results = []\<rparr>"

text \<open>
  An upstream provider that serves every requested region, filled with ones and
  with resolution 4; it has no state.
\<close>

definition serve_ones :: "(int, int list, unit) upstream" where
  "serve_ones u chunk_request =
     (Inr (map (\<lambda>(vt, r). (vt,
              \<lparr>vol_data = \<lparr>nd_shape = map nat (roi_shape r), nd_data = (\<lambda>idx. 1)\<rparr>,
               vol_roi = r, vol_resolution = [4], vol_interpolate = True\<rparr>)) chunk_request), u)"

text \<open>The scenario after one \<^verbatim>\<open>provide\<close>: the queue is empty.\<close>

definition scenario_spent :: chunk where
  "scenario_spent = scenario_ready\<lparr>requests := Some []\<rparr>"

text \<open>
  An output array of three channels for the request of the scenario, and the array
  of its last sub-batch, which covers 90 to 120.
\<close>

definition zeros_3_100 :: "int ndarray" where
  "zeros_3_100 = \<lparr>nd_shape = [3, 100], nd_data = (\<lambda>idx. 0)\<rparr>"

definition ones_3_30 :: "int ndarray" where
  "ones_3_30 = \<lparr>nd_shape = [3, 30], nd_data = (\<lambda>idx. 1)\<rparr>"

definition request_roi :: roi where
  "request_roi = \<lparr>roi_offset = [0], roi_shape = [100]\<rparr>"

definition last_chunk_roi :: roi where
  "last_chunk_roi = \<lparr>roi_offset = [90], roi_shape = [30]\<rparr>"

section \<open>Evaluation\<close>

lemmas geometry_defs =
  coord_add_def coord_sub_def get_offset_def get_shape_def get_begin_def get_end_def
  dims_def roi_add_def roi_sub_def

lemmas schedule_defs =
  schedule_def walk_bounds_def get_common_roi_shape_def np_min_axis0_def np_max_axis0_def
  setitem_def np_clip_min_def all_less_def next_stride_def Let_def

lemma init_template:
  assumes "init req chunk_spec workers = Inr self"
  shows "chunk_spec_template self = chunk_spec \<and> chunk_spec \<noteq> []
     \<and> list_all (\<lambda>(vt, r). dims r = chunk_dims self) chunk_spec
     \<and> request self = req \<and> requests self = None \<and> num_requests self = None"
proof (cases chunk_spec)
  case Nil
  with assms show ?thesis by (simp add: init_def)
next
  case (Cons p rest)
  obtain vt r where p: "p = (vt, r)" by (cases p)
  from assms have ok: "list_all (\<lambda>(vt', r'). dims r = dims r') chunk_spec"
    and self: "self = \<lparr>chunk_spec_template = chunk_spec, chunk_dims = dims r,
                    request = req, num_workers = workers,
                    requests = None, num_requests = None\<rparr>"
    by (auto simp: init_def Cons p split: if_splits)
  from ok have "list_all (\<lambda>(vt', r'). dims r' = dims r) chunk_spec"
    by (auto simp: list_all_iff)
  with self Cons show ?thesis by simp
qed

lemma scenario_is_init:
  "init [(RAW, \<lparr>roi_offset = [0], roi_shape = [100]\<rparr>)]
        [(RAW, \<lparr>roi_offset = [0], roi_shape = [30]\<rparr>)] 1 = Inr scenario"
  by (simp add: init_def scenario_def dims_def)

section \<open>The scenario of the specification\<close>

text \<open>
  C2, as the code has it. In the scenario the walk bounds are \<open>min_stride = 30\<close>,
  \<open>begin = 0\<close> and \<open>end = 100\<close>, and schedule building puts exactly four
  sub-requests, with chunk offsets 0, 30, 60 and 90 in this order. The stride is
  clipped to be at least \<open>min_stride\<close>, so every step is 30, also the one taken at
  offset 60 and the last one at offset 90; the last chunk covers 90 to 120.
\<close>

theorem scenario_schedule:
  "walk_bounds scenario = Inr ([30], [0], [100])
   \<and> schedule scenario
       = Some (Inr [raw_chunk_at 0, raw_chunk_at 30, raw_chunk_at 60, raw_chunk_at 90])
   \<and> map_option (map_sum id num_requests) (prepare_requests scenario) = Some (Inr (Some 4))
   \<and> map (\<lambda>x. map_sum id hd (next_stride scenario [30] [100] [x])) [0, 30, 60, 90]
       = [Inr 30, Inr 30, Inr 30, Inr 30]"
  by (simp add: scenario_def raw_chunk_at_def prepare_requests_def schedule_defs geometry_defs
      walk.simps advance.simps)

text \<open>
  C2 as the specification states it fails: the offsets are not 0, 30, 60, 70, and
  the step taken at offset 60 is not a shrunk stride of 10.
\<close>

theorem scenario_schedule_counterexample:
  "schedule scenario
     \<noteq> Some (Inr [raw_chunk_at 0, raw_chunk_at 30, raw_chunk_at 60, raw_chunk_at 70])
   \<and> map_sum id hd (next_stride scenario [30] [100] [60]) \<noteq> Inr 10"
  by (simp add: scenario_def raw_chunk_at_def schedule_defs geometry_defs
      walk.simps advance.simps)

section \<open>Minimum and maximum along the first axis\<close>

lemma foldl_map2_length:
  "\<forall>x \<in> set rs. length x = length r \<Longrightarrow> length (foldl (map2 f) r rs) = length r"
  by (induction rs arbitrary: r) auto

lemma foldl_map2_min_nth:
  "\<forall>x \<in> set rs. length x = length r \<Longrightarrow> d < length r \<Longrightarrow>
   foldl (map2 min) r rs ! d = Min ((\<lambda>x. x ! d) ` set (r # rs))"
proof (induction rs arbitrary: r)
  case Nil
  then show ?case by simp
next
  case (Cons x rs)
  from Cons.prems have len: "length (map2 min r x) = length r" by simp
  have "foldl (map2 min) (map2 min r x) rs ! d = Min ((\<lambda>y. y ! d) ` set (map2 min r x # rs))"
    using Cons.prems len by (intro Cons.IH) auto
  moreover have "map2 min r x ! d = min (r ! d) (x ! d)"
    using Cons.prems by simp
  ultimately show ?case
    by (cases "rs = []") (simp_all add: min.assoc)
qed

lemma foldl_map2_max_nth:
  "\<forall>x \<in> set rs. length x = length r \<Longrightarrow> d < length r \<Longrightarrow>
   foldl (map2 max) r rs ! d = Max ((\<lambda>x. x ! d) ` set (r # rs))"
proof (induction rs arbitrary: r)
  case Nil
  then show ?case by simp
next
  case (Cons x rs)
  from Cons.prems have len: "length (map2 max r x) = length r" by simp
  have "foldl (map2 max) (map2 max r x) rs ! d = Max ((\<lambda>y. y ! d) ` set (map2 max r x # rs))"
    using Cons.prems len by (intro Cons.IH) auto
  moreover have "map2 max r x ! d = max (r ! d) (x ! d)"
    using Cons.prems by simp
  ultimately show ?case
    by (cases "rs = []") (simp_all add: max.assoc)
qed


lemma all_initial_offsets_eq:
  "list_all (\<lambda>(vt, r). map_of req vt \<noteq> None) tmpl \<Longrightarrow>
   all_initial_offsets req tmpl
     = Inr (map (\<lambda>(vt, r). coord_sub (get_begin (the (map_of req vt))) (get_begin r)) tmpl)"
  by (induction tmpl) auto

lemma all_max_offsets_eq:
  "list_all (\<lambda>(vt, r). map_of req vt \<noteq> None) tmpl \<Longrightarrow>
   all_max_offsets req tmpl
     = Inr (map (\<lambda>(vt, r). coord_sub (get_end (the (map_of req vt))) (get_shape r)) tmpl)"
  by (induction tmpl) auto

lemma well_formed_lookup:
  "well_formed self \<Longrightarrow> list_all (\<lambda>(vt, r). map_of (request self) vt \<noteq> None) (chunk_spec_template self)"
  unfolding well_formed_def list_all_iff by (auto split: option.splits)

lemma well_formed_entity:
  assumes "well_formed self" "(vt, r) \<in> set (chunk_spec_template self)"
  shows "length (roi_offset r) = chunk_dims self" "length (roi_shape r) = chunk_dims self"
    "map_of (request self) vt = Some (requested self vt)"
    "length (roi_offset (requested self vt)) = chunk_dims self"
    "length (roi_shape (requested self vt)) = chunk_dims self"
  using assms unfolding well_formed_def list_all_iff requested_def
  by (auto split: option.splits)

lemma np_min_axis0_nth:
  assumes "rows \<noteq> []" "\<forall>x \<in> set rows. length x = n" "d < n"
  shows "\<exists>v. np_min_axis0 rows = Inr v \<and> length v = n \<and> v ! d = Min ((\<lambda>x. x ! d) ` set rows)"
proof (cases rows)
  case Nil
  with assms show ?thesis by simp
next
  case (Cons r rs)
  with assms have "\<forall>x \<in> set rs. length x = length r" "d < length r" "length r = n" by auto
  then show ?thesis
    using foldl_map2_min_nth [of rs r d] foldl_map2_length [of rs r min]
    by (simp add: np_min_axis0_def Cons)
qed

lemma np_max_axis0_nth:
  assumes "rows \<noteq> []" "\<forall>x \<in> set rows. length x = n" "d < n"
  shows "\<exists>v. np_max_axis0 rows = Inr v \<and> length v = n \<and> v ! d = Max ((\<lambda>x. x ! d) ` set rows)"
proof (cases rows)
  case Nil
  with assms show ?thesis by simp
next
  case (Cons r rs)
  with assms have "\<forall>x \<in> set rs. length x = length r" "d < length r" "length r = n" by auto
  then show ?thesis
    using foldl_map2_max_nth [of rs r d] foldl_map2_length [of rs r max]
    by (simp add: np_max_axis0_def Cons)
qed

lemma get_common_roi_shape_length:
  assumes "spec \<noteq> []" "\<forall>(vt, r) \<in> set spec. length (roi_shape r) = n"
  shows "length (get_common_roi_shape spec) = n"
proof -
  obtain vt r rest where spec: "spec = (vt, r) # rest" using assms(1) by (cases spec) auto
  let ?ss = "map (\<lambda>(vt, r). get_shape r) rest"
  have len: "\<forall>x \<in> set ?ss. length x = length (get_shape r)"
    using assms(2) by (auto simp: spec get_shape_def)
  have eq: "get_common_roi_shape spec = foldl (map2 min) (get_shape r) ?ss"
    by (simp add: get_common_roi_shape_def spec)
  show ?thesis
    using foldl_map2_length [OF len, of min] assms(2) by (simp add: eq) (simp add: spec get_shape_def)
qed

lemma get_common_roi_shape_nth:
  assumes "spec \<noteq> []" "\<forall>(vt, r) \<in> set spec. length (roi_shape r) = n" "d < n"
  shows "get_common_roi_shape spec ! d = Min ((\<lambda>(vt, r). get_shape r ! d) ` set spec)"
proof -
  obtain vt r rest where spec: "spec = (vt, r) # rest" using assms(1) by (cases spec) auto
  let ?ss = "map (\<lambda>(vt, r). get_shape r) rest"
  have len: "\<forall>x \<in> set ?ss. length x = length (get_shape r)"
    using assms(2) by (auto simp: spec get_shape_def)
  have d: "d < length (get_shape r)" using assms by (simp add: spec get_shape_def)
  have eq: "get_common_roi_shape spec = foldl (map2 min) (get_shape r) ?ss"
    by (simp add: get_common_roi_shape_def spec)
  have "(\<lambda>x. x ! d) ` set (get_shape r # ?ss) = (\<lambda>(vt, r). get_shape r ! d) ` set spec"
    by (auto simp: spec image_iff)
  then show ?thesis
    using foldl_map2_min_nth [OF len d] by (simp add: eq)
qed

lemma well_formed_min_stride_length:
  assumes "well_formed self"
  shows "length (get_common_roi_shape (chunk_spec_template self)) = chunk_dims self"
proof -
  have "chunk_spec_template self \<noteq> []" using assms by (simp add: well_formed_def)
  moreover have "\<forall>(vt, r) \<in> set (chunk_spec_template self). length (roi_shape r) = chunk_dims self"
    using well_formed_entity(2) [OF assms] by auto
  ultimately show ?thesis by (rule get_common_roi_shape_length)
qed

section \<open>The bounds of the walk\<close>

text \<open>
  C4. For a well-formed chunk node, \<^verbatim>\<open>__prepare_requests\<close> computes its three
  vectors without error, and on every axis \<open>d\<close>: \<open>min_stride\<close> is the smallest
  template shape over all entities, \<open>begin\<close> is the minimum over the templated
  entities of the requested offset minus the template offset, and \<open>end\<close> is
  \<open>min_stride\<close> plus the maximum over the templated entities of the requested end
  minus the template shape.
\<close>

theorem walk_bounds_spec:
  assumes wf: "well_formed self" and d: "d < chunk_dims self"
  shows "\<exists>min_stride begin_off end_off.
     walk_bounds self = Inr (min_stride, begin_off, end_off)
     \<and> min_stride ! d = Min ((\<lambda>(vt, r). get_shape r ! d) ` set (chunk_spec_template self))
     \<and> begin_off ! d
         = Min ((\<lambda>(vt, r). get_offset (requested self vt) ! d - get_offset r ! d)
                  ` set (chunk_spec_template self))
     \<and> end_off ! d
         = min_stride ! d
           + Max ((\<lambda>(vt, r). get_end (requested self vt) ! d - get_shape r ! d)
                    ` set (chunk_spec_template self))"
proof -
  let ?tmpl = "chunk_spec_template self"
  let ?n = "chunk_dims self"
  let ?init = "map (\<lambda>(vt, r). coord_sub (get_begin (the (map_of (request self) vt))) (get_begin r)) ?tmpl"
  let ?maxs = "map (\<lambda>(vt, r). coord_sub (get_end (the (map_of (request self) vt))) (get_shape r)) ?tmpl"
  have ne: "?tmpl \<noteq> []" using wf by (simp add: well_formed_def)
  have ent: "\<And>vt r. (vt, r) \<in> set ?tmpl \<Longrightarrow>
      length (roi_offset r) = ?n \<and> length (roi_shape r) = ?n
      \<and> the (map_of (request self) vt) = requested self vt
      \<and> length (roi_offset (requested self vt)) = ?n
      \<and> length (roi_shape (requested self vt)) = ?n"
    using well_formed_entity [OF wf] by (auto simp: requested_def)
  have ms_len: "length (get_common_roi_shape ?tmpl) = ?n"
    by (rule well_formed_min_stride_length [OF wf])
  have ms: "get_common_roi_shape ?tmpl ! d = Min ((\<lambda>(vt, r). get_shape r ! d) ` set ?tmpl)"
    using get_common_roi_shape_nth [OF ne _ d] ent by auto
  have init_len: "\<forall>x \<in> set ?init. length x = ?n"
    using ent by (auto simp: coord_sub_def get_begin_def)
  have maxs_len: "\<forall>x \<in> set ?maxs. length x = ?n"
    using ent by (auto simp: coord_sub_def coord_add_def get_end_def get_shape_def)
  obtain b where b: "np_min_axis0 ?init = Inr b" "length b = ?n"
      "b ! d = Min ((\<lambda>x. x ! d) ` set ?init)"
    using np_min_axis0_nth [OF _ init_len d] ne by auto
  obtain m where m: "np_max_axis0 ?maxs = Inr m" "length m = ?n"
      "m ! d = Max ((\<lambda>x. x ! d) ` set ?maxs)"
    using np_max_axis0_nth [OF _ maxs_len d] ne by auto
  have wb: "walk_bounds self
      = Inr (get_common_roi_shape ?tmpl, b, coord_add m (get_common_roi_shape ?tmpl))"
    using all_initial_offsets_eq [OF well_formed_lookup [OF wf]]
      all_max_offsets_eq [OF well_formed_lookup [OF wf]] b(1) m(1)
    by (simp add: walk_bounds_def Let_def)
  have b_img: "(\<lambda>x. x ! d) ` set ?init
      = (\<lambda>(vt, r). get_offset (requested self vt) ! d - get_offset r ! d) ` set ?tmpl"
    using ent d by (force simp: image_iff coord_sub_def get_begin_def get_offset_def)
  have m_img: "(\<lambda>x. x ! d) ` set ?maxs
      = (\<lambda>(vt, r). get_end (requested self vt) ! d - get_shape r ! d) ` set ?tmpl"
    using ent d by (force simp: image_iff coord_sub_def coord_add_def get_end_def get_shape_def)
  have e: "coord_add m (get_common_roi_shape ?tmpl) ! d = m ! d + get_common_roi_shape ?tmpl ! d"
    using m(2) ms_len d by (simp add: coord_add_def)
  have b': "b ! d = Min ((\<lambda>(vt, r). get_offset (requested self vt) ! d - get_offset r ! d) ` set ?tmpl)"
    using b(3) unfolding b_img .
  have m': "m ! d = Max ((\<lambda>(vt, r). get_end (requested self vt) ! d - get_shape r ! d) ` set ?tmpl)"
    using m(3) unfolding m_img .
  show ?thesis
    using wb ms b' m' e by simp
qed

theorem walk_bounds_spec_witness:
  "well_formed two_entities \<and> 0 < chunk_dims two_entities
   \<and> (\<exists>min_stride begin_off end_off.
     walk_bounds two_entities = Inr (min_stride, begin_off, end_off)
     \<and> min_stride ! 0 = Min ((\<lambda>(vt, r). get_shape r ! 0) ` set (chunk_spec_template two_entities))
     \<and> begin_off ! 0
         = Min ((\<lambda>(vt, r). get_offset (requested two_entities vt) ! 0 - get_offset r ! 0)
                  ` set (chunk_spec_template two_entities))
     \<and> end_off ! 0
         = min_stride ! 0
           + Max ((\<lambda>(vt, r). get_end (requested two_entities vt) ! 0 - get_shape r ! 0)
                    ` set (chunk_spec_template two_entities)))"
proof -
  have wf: "well_formed two_entities"
    by (simp add: well_formed_def two_entities_def)
  have d: "0 < chunk_dims two_entities"
    by (simp add: two_entities_def)
  from walk_bounds_spec [OF wf d] wf d show ?thesis by blast
qed

lemma two_entities_bounds: "walk_bounds two_entities = Inr ([30], [0], [190])"
  by (simp add: two_entities_def schedule_defs geometry_defs)

section \<open>The stride of one step\<close>

lemma max_stride_loop_1:
  "max_stride_loop rq ch end_off off [0 ..< 1] [0, 0, 0]
     = Inr [candidate rq ch end_off off 0, 0, 0]"
  by (simp add: setitem_def candidate_def)

lemma upt_0_3: "[0 ..< 3] = [0, 1, 2]"
  by (simp add: numeral_2_eq_2 numeral_3_eq_3)

lemma max_stride_loop_3:
  "max_stride_loop rq ch end_off off [0 ..< 3] [0, 0, 0]
     = Inr [candidate rq ch end_off off 0, candidate rq ch end_off off 1,
            candidate rq ch end_off off 2]"
  by (simp add: upt_0_3 setitem_def candidate_def numeral_2_eq_2)

lemma clip_entity:
  assumes "dims r = length min_stride" "length min_stride = 1 \<or> length min_stride = 3"
  shows "(case max_stride_loop rq ch end_off off [0 ..< dims r] [0, 0, 0] of
            Inl e \<Rightarrow> Inl e
          | Inr max_stride \<Rightarrow> np_clip_min max_stride min_stride)
         = Inr (clipped rq ch min_stride end_off off)"
proof -
  from assms(2) show ?thesis
  proof
    assume 1: "length min_stride = 1"
    then obtain m where "min_stride = [m]" by (cases min_stride) auto
    moreover have "max_stride_loop rq ch end_off off [0 ..< dims r] [0, 0, 0]
        = Inr [candidate rq ch end_off off 0, 0, 0]"
      using assms(1) 1 max_stride_loop_1 [of rq ch end_off off] by simp
    ultimately show ?thesis
      by (simp add: np_clip_min_def clipped_def)
  next
    assume 3: "length min_stride = 3"
    then obtain m0 m1 m2 where "min_stride = [m0, m1, m2]"
      by (cases min_stride; cases "tl min_stride"; cases "tl (tl min_stride)") auto
    moreover have "max_stride_loop rq ch end_off off [0 ..< dims r] [0, 0, 0]
        = Inr [candidate rq ch end_off off 0, candidate rq ch end_off off 1,
               candidate rq ch end_off off 2]"
      using assms(1) 3 max_stride_loop_3 [of rq ch end_off off] by simp
    ultimately show ?thesis
      by (simp add: np_clip_min_def clipped_def)
  qed
qed

lemma chunk_entities_eq:
  assumes "list_all (\<lambda>(vt, r). dims r = length min_stride \<and> map_of req vt \<noteq> None) tmpl"
    and "length min_stride = 1 \<or> length min_stride = 3"
  shows "\<exists>chunk_request'.
     chunk_entities req min_stride end_off off tmpl chunk_request max_strides
       = Inr (chunk_request',
              max_strides @ map (\<lambda>(vt, r). clipped (the (map_of req vt)) (roi_add r off)
                                            min_stride end_off off) tmpl)"
  using assms(1)
proof (induction tmpl arbitrary: chunk_request max_strides)
  case Nil
  then show ?case by simp
next
  case (Cons p tmpl)
  obtain vt r where p: "p = (vt, r)" by (cases p)
  from Cons.prems p obtain rq where rq: "map_of req vt = Some rq" and dr: "dims r = length min_stride"
    and rest: "list_all (\<lambda>(vt, r). dims r = length min_stride \<and> map_of req vt \<noteq> None) tmpl"
    by auto
  note ce = clip_entity [OF dr assms(2), of rq "roi_add r off" end_off off]
  from Cons.IH [OF rest, of "AList.update vt (roi_add r off) chunk_request"
      "max_strides @ [clipped rq (roi_add r off) min_stride end_off off]"]
  obtain cr where "chunk_entities req min_stride end_off off tmpl
        (AList.update vt (roi_add r off) chunk_request)
        (max_strides @ [clipped rq (roi_add r off) min_stride end_off off])
      = Inr (cr, (max_strides @ [clipped rq (roi_add r off) min_stride end_off off])
             @ map (\<lambda>(vt, r). clipped (the (map_of req vt)) (roi_add r off)
                                  min_stride end_off off) tmpl)"
    by blast
  then show ?case
    using rq ce by (auto simp: p Let_def split: sum.splits)
qed


lemma clipped_length: "length (clipped rq ch min_stride end_off off) = 3"
  by (simp add: clipped_def)

lemma clipped_nth:
  assumes "length min_stride = 1 \<or> length min_stride = 3" "d < length min_stride"
  shows "clipped rq ch min_stride end_off off ! d
           = max (candidate rq ch end_off off d) (min_stride ! d)"
proof -
  from assms have "d = 0 \<or> d = 1 \<or> d = 2" by auto
  with assms show ?thesis
    by (auto simp: clipped_def)
qed

lemma Min_image_max:
  fixes S :: "'a set" and f :: "'a \<Rightarrow> int"
  assumes "finite S" "S \<noteq> {}"
  shows "Min ((\<lambda>x. max (f x) c) ` S) = max c (Min (f ` S))"
proof -
  have "(\<lambda>y. max y c) (Min (f ` S)) = Min ((\<lambda>y. max y c) ` (f ` S))"
    using assms by (intro hom_Min_commute) (auto simp: max_min_distrib1)
  then show ?thesis by (simp add: image_image max.commute)
qed

lemma walk_bounds_min_stride:
  "walk_bounds self = Inr (min_stride, begin_off, end_off) \<Longrightarrow>
   min_stride = get_common_roi_shape (chunk_spec_template self)"
  by (auto simp: walk_bounds_def Let_def split: sum.splits)

lemma next_stride_eq:
  assumes wf: "well_formed self"
    and D: "chunk_dims self = 1 \<or> chunk_dims self = 3"
    and ms: "length min_stride = chunk_dims self"
  shows "\<exists>stride. next_stride self min_stride end_off off = Inr stride \<and> length stride = 3
     \<and> (\<forall>d < chunk_dims self. stride ! d = stride_spec self min_stride end_off off d)"
proof -
  let ?tmpl = "chunk_spec_template self"
  let ?cl = "\<lambda>(vt, r). clipped (the (map_of (request self) vt)) (roi_add r off) min_stride end_off off"
  let ?cand = "\<lambda>d (vt, r). candidate (requested self vt) (roi_add r off) end_off off d"
  have ne: "?tmpl \<noteq> []" using wf by (simp add: well_formed_def)
  have ents: "list_all (\<lambda>(vt, r). dims r = length min_stride \<and> map_of (request self) vt \<noteq> None) ?tmpl"
    using well_formed_entity [OF wf] ms by (auto simp: list_all_iff dims_def)
  have D': "length min_stride = 1 \<or> length min_stride = 3" using D ms by simp
  obtain cr where ce: "chunk_entities (request self) min_stride end_off off ?tmpl (request self) []
      = Inr (cr, map ?cl ?tmpl)"
    using chunk_entities_eq [OF ents D', of end_off off "request self" "[]"] by auto
  have len: "\<forall>x \<in> set (map ?cl ?tmpl). length x = 3"
    by (auto simp: clipped_length)
  have rows: "map ?cl ?tmpl \<noteq> []" using ne by simp
  show ?thesis
  proof -
    have "\<exists>v. np_min_axis0 (map ?cl ?tmpl) = Inr v \<and> length v = 3
        \<and> (\<forall>d < chunk_dims self. v ! d = stride_spec self min_stride end_off off d)"
    proof -
      obtain r rs where rr: "map ?cl ?tmpl = r # rs" using rows by (cases "map ?cl ?tmpl") auto
      have lr: "length r = 3" "\<forall>x \<in> set rs. length x = length r"
        using len unfolding rr by auto
      have v: "np_min_axis0 (map ?cl ?tmpl) = Inr (foldl (map2 min) r rs)"
        by (simp add: np_min_axis0_def rr)
      have vl: "length (foldl (map2 min) r rs) = 3"
        using foldl_map2_length [OF lr(2), of min] lr(1) by simp
      have "foldl (map2 min) r rs ! d = stride_spec self min_stride end_off off d"
        if d: "d < chunk_dims self" for d
      proof -
        have d3: "d < length r" using d D lr(1) by auto
        have "foldl (map2 min) r rs ! d = Min ((\<lambda>x. x ! d) ` set (map ?cl ?tmpl))"
          using foldl_map2_min_nth [OF lr(2) d3] by (simp add: rr)
        also have "(\<lambda>x. x ! d) ` set (map ?cl ?tmpl) = (\<lambda>p. ?cl p ! d) ` set ?tmpl"
          by (simp add: image_image)
        also have "\<dots> = (\<lambda>p. max (?cand d p) (min_stride ! d)) ` set ?tmpl"
        proof (rule image_cong)
          fix p assume "p \<in> set ?tmpl"
          obtain vt r where p: "p = (vt, r)" by (cases p)
          have "d < length min_stride" using d ms by simp
          from clipped_nth [OF D' this]
          show "?cl p ! d = max (?cand d p) (min_stride ! d)"
            by (simp add: p requested_def)
        qed simp
        also have "Min \<dots> = stride_spec self min_stride end_off off d"
          unfolding stride_spec_def using ne by (intro Min_image_max) auto
        finally show ?thesis .
      qed
      with v vl show ?thesis by simp
    qed
    then show ?thesis using ce by (simp add: next_stride_def)
  qed
qed

lemma walk_step:
  assumes wf: "well_formed self"
    and D: "chunk_dims self = 1 \<or> chunk_dims self = 3"
    and ms: "length min_stride = chunk_dims self"
    and visited: "all_less off end_off"
  shows "\<exists>stride chunk_request.
     next_stride self min_stride end_off off = Inr stride
     \<and> (\<forall>d < chunk_dims self. stride ! d = stride_spec self min_stride end_off off d)
     \<and> walk self min_stride begin_off end_off off queue
         = walk self min_stride begin_off end_off
             (advance (chunk_dims self) stride begin_off end_off 0 off)
             (queue @ [chunk_request])"
proof -
  obtain stride where st: "next_stride self min_stride end_off off = Inr stride"
    "\<forall>d < chunk_dims self. stride ! d = stride_spec self min_stride end_off off d"
    using next_stride_eq [OF wf D ms] by blast
  from st(1) obtain cr mss where ce:
    "chunk_entities (request self) min_stride end_off off (chunk_spec_template self) (request self) []
       = Inr (cr, mss)" and mn: "np_min_axis0 mss = Inr stride"
    by (auto simp: next_stride_def split: sum.splits)
  have "walk self min_stride begin_off end_off off queue
         = walk self min_stride begin_off end_off
             (advance (chunk_dims self) stride begin_off end_off 0 off) (queue @ [cr])"
    using visited ce mn by (subst walk.simps) simp
  with st show ?thesis by blast
qed

text \<open>
  C3. At every offset that passes the loop test of the walk, for a well-formed
  chunk node of one or three dimensions, the stride that the step computes is on
  every axis the stride of the specification: the candidates of the entities,
  reduced by minimum and clamped below by \<open>min_stride\<close>. The walk goes on from the
  offset advanced by this stride.
\<close>

theorem stride_used_for_next_step:
  assumes wf: "well_formed self"
    and D: "chunk_dims self = 1 \<or> chunk_dims self = 3"
    and bounds: "walk_bounds self = Inr (min_stride, begin_off, end_off)"
    and visited: "all_less off end_off"
  shows "\<exists>stride chunk_request.
     next_stride self min_stride end_off off = Inr stride
     \<and> (\<forall>d < chunk_dims self. stride ! d = stride_spec self min_stride end_off off d)
     \<and> walk self min_stride begin_off end_off off queue
         = walk self min_stride begin_off end_off
             (advance (chunk_dims self) stride begin_off end_off 0 off)
             (queue @ [chunk_request])"
proof -
  have ms: "length min_stride = chunk_dims self"
    using walk_bounds_min_stride [OF bounds] well_formed_min_stride_length [OF wf] by simp
  show ?thesis by (rule walk_step [OF wf D ms visited])
qed

theorem stride_used_for_next_step_witness:
  "well_formed two_entities \<and> chunk_dims two_entities = 1
   \<and> walk_bounds two_entities = Inr ([30], [0], [190]) \<and> all_less [160] [190]
   \<and> (\<exists>stride chunk_request.
     next_stride two_entities [30] [190] [160] = Inr stride
     \<and> (\<forall>d < chunk_dims two_entities. stride ! d = stride_spec two_entities [30] [190] [160] d)
     \<and> walk two_entities [30] [0] [190] [160] []
         = walk two_entities [30] [0] [190]
             (advance (chunk_dims two_entities) stride [0] [190] 0 [160])
             ([] @ [chunk_request]))"
proof -
  have wf: "well_formed two_entities"
    by (simp add: well_formed_def two_entities_def)
  have D: "chunk_dims two_entities = 1 \<or> chunk_dims two_entities = 3"
    by (simp add: two_entities_def)
  have v: "all_less [160] [190]"
    by (simp add: all_less_def)
  from stride_used_for_next_step [OF wf D two_entities_bounds v, of "[]"] wf v two_entities_bounds
  show ?thesis by (simp add: two_entities_def)
qed

lemma two_entities_stride:
  "next_stride two_entities [30] [190] [160] = Inr [30, 30, 30]
   \<and> stride_spec two_entities [30] [190] [160] 0 = 30"
  by (simp add: two_entities_def schedule_defs geometry_defs stride_spec_def candidate_def
      requested_def)

section \<open>The stride buffer of length three\<close>

lemma max_stride_loop_in_range:
  "\<forall>d \<in> set ds. d < length buf \<Longrightarrow>
   \<exists>buf'. max_stride_loop rq ch end_off off ds buf = Inr buf' \<and> length buf' = length buf"
proof (induction ds arbitrary: buf)
  case Nil
  then show ?case by simp
next
  case (Cons x ds)
  let ?v = "if get_end rq ! x > get_end ch ! x
            then get_begin rq ! x - get_begin ch ! x else end_off ! x - off ! x"
  from Cons.prems have x: "x < length buf" and "\<forall>d \<in> set ds. d < length (buf[x := ?v])"
    by auto
  from Cons.IH [OF this(2)] x show ?case
    by (simp add: setitem_def)
qed

lemma max_stride_loop_out_of_range:
  "\<forall>d \<in> set ds. d < length buf \<Longrightarrow> length buf \<le> d \<Longrightarrow>
   max_stride_loop rq ch end_off off (ds @ d # ds') buf = Inl (IndexError d)"
proof (induction ds arbitrary: buf)
  case Nil
  then show ?case by (simp add: setitem_def)
next
  case (Cons x ds)
  let ?v = "if get_end rq ! x > get_end ch ! x
            then get_begin rq ! x - get_begin ch ! x else end_off ! x - off ! x"
  from Cons.prems have x: "x < length buf" and "\<forall>d \<in> set ds. d < length (buf[x := ?v])"
    and "length (buf[x := ?v]) \<le> d"
    by auto
  from Cons.IH [OF this(2,3)] x show ?case
    by (simp add: setitem_def)
qed

lemma max_stride_loop_four:
  assumes "4 \<le> n"
  shows "max_stride_loop rq ch end_off off [0 ..< n] [0, 0, 0] = Inl (IndexError 3)"
proof -
  have "[0 ..< n] = [0 ..< 3] @ 3 # [4 ..< n]"
    using assms upt_add_eq_append [of 0 3 "n - 3"] upt_conv_Cons [of 3 n] by simp
  then show ?thesis
    using max_stride_loop_out_of_range [of "[0 ..< 3]" "[0, 0, 0]" 3 rq ch end_off off "[4 ..< n]"]
    by simp
qed

lemma first_entity_fails:
  assumes wf: "well_formed self"
    and ms: "length min_stride = chunk_dims self"
    and D: "chunk_dims self \<noteq> 1" "chunk_dims self \<noteq> 3"
  shows "chunk_entities (request self) min_stride end_off off (chunk_spec_template self)
           chunk_request max_strides
         = Inl (if 4 \<le> chunk_dims self then IndexError 3 else ValueError)"
proof -
  obtain vt r rest where tmpl: "chunk_spec_template self = (vt, r) # rest"
    using wf by (cases "chunk_spec_template self") (auto simp: well_formed_def)
  then have mem: "(vt, r) \<in> set (chunk_spec_template self)" by simp
  have rq: "map_of (request self) vt = Some (requested self vt)"
    and dr: "dims r = chunk_dims self"
    using well_formed_entity [OF wf mem] by (simp_all add: dims_def)
  show ?thesis
  proof (cases "4 \<le> chunk_dims self")
    case True
    then show ?thesis
      using max_stride_loop_four [of "dims r"] rq dr by (simp add: tmpl Let_def)
  next
    case False
    then have "\<forall>d \<in> set [0 ..< dims r]. d < length [0, 0, 0 :: int]"
      using dr by auto
    from max_stride_loop_in_range [OF this, of "requested self vt" "roi_add r off" end_off off]
    obtain buf where buf: "max_stride_loop (requested self vt) (roi_add r off) end_off off
        [0 ..< dims r] [0, 0, 0] = Inr buf" "length buf = 3"
      by (auto simp: numeral_3_eq_3)
    have "np_clip_min buf min_stride = Inl ValueError"
      using buf(2) ms D False by (simp add: np_clip_min_def)
    then show ?thesis
      using False rq buf(1) by (simp add: tmpl Let_def)
  qed
qed

text \<open>
  C9, as the code has it. The stride buffer has length three whatever the
  dimensionality \<open>D\<close>. Whenever the walk visits at least one offset (\<open>begin < end\<close>
  on every axis), for a well-formed chunk node: for \<open>D = 2\<close> the clamp against
  \<open>min_stride\<close> fails with a broadcast error; for \<open>D \<ge> 4\<close> the write of stride
  component 3, the first one outside the buffer, fails with an index error; and
  schedule building succeeds only for \<open>D = 1\<close> and \<open>D = 3\<close>.
\<close>

theorem stride_buffer_dimensionality:
  assumes wf: "well_formed self"
    and bounds: "walk_bounds self = Inr (min_stride, begin_off, end_off)"
    and visited: "all_less begin_off end_off"
  shows "(chunk_dims self = 2 \<longrightarrow> schedule self = Some (Inl ValueError))
     \<and> (4 \<le> chunk_dims self \<longrightarrow> schedule self = Some (Inl (IndexError 3)))
     \<and> (\<forall>queue. schedule self = Some (Inr queue) \<longrightarrow> chunk_dims self = 1 \<or> chunk_dims self = 3)"
proof -
  have ms: "length min_stride = chunk_dims self"
    using walk_bounds_min_stride [OF bounds] well_formed_min_stride_length [OF wf] by simp
  have sch: "schedule self = walk self min_stride begin_off end_off begin_off []"
    using bounds by (simp add: schedule_def)
  have fails: "schedule self
      = Some (Inl (if 4 \<le> chunk_dims self then IndexError 3 else ValueError))"
    if "chunk_dims self \<noteq> 1" "chunk_dims self \<noteq> 3"
    unfolding sch using visited first_entity_fails [OF wf ms that]
    by (subst walk.simps) simp
  show ?thesis
  proof (intro conjI impI allI)
    assume "chunk_dims self = 2"
    then show "schedule self = Some (Inl ValueError)" using fails by simp
  next
    assume "4 \<le> chunk_dims self"
    then show "schedule self = Some (Inl (IndexError 3))" using fails by simp
  next
    fix queue assume "schedule self = Some (Inr queue)"
    then show "chunk_dims self = 1 \<or> chunk_dims self = 3" using fails by auto
  qed
qed

theorem stride_buffer_dimensionality_witness:
  "well_formed flat \<and> walk_bounds flat = Inr ([10, 10], [0, 0], [20, 20])
   \<and> all_less [0, 0] [20, 20]
   \<and> chunk_dims flat = 2 \<and> schedule flat = Some (Inl ValueError)"
proof -
  have wf: "well_formed flat"
    by (simp add: well_formed_def flat_def)
  have b: "walk_bounds flat = Inr ([10, 10], [0, 0], [20, 20])"
    by (simp add: flat_def schedule_defs geometry_defs)
  have v: "all_less [0, 0] [20, 20]"
    by (simp add: all_less_def)
  have D: "chunk_dims flat = 2"
    by (simp add: flat_def)
  from stride_buffer_dimensionality [OF wf b v] wf b v D show ?thesis by blast
qed

text \<open>
  C9 as stated fails twice. A two-dimensional chunk node whose request is an
  empty region is scheduled without error: the walk visits no offset, and the
  schedule is empty. And for five dimensions the write that fails is that of
  component 3, not of component \<open>D - 1 = 4\<close>.
\<close>

theorem stride_buffer_counterexample:
  "chunk_dims flat_empty = 2 \<and> schedule flat_empty = Some (Inr [])
   \<and> chunk_dims five_dims = 5 \<and> schedule five_dims = Some (Inl (IndexError 3))
   \<and> schedule five_dims \<noteq> Some (Inl (IndexError 4))"
  by (simp add: flat_empty_def five_dims_def schedule_defs geometry_defs walk.simps)

section \<open>Termination of the walk\<close>

lemma advance_1:
  "length off = 1 \<Longrightarrow> advance 1 stride begin_off end_off 0 off = [off ! 0 + stride ! 0]"
  by (cases off) (auto simp: advance.simps Let_def)

lemma advance_3:
  assumes "length off = 3"
  shows "advance 3 stride begin_off end_off 0 off =
     (if off ! 0 + stride ! 0 < end_off ! 0 then [off ! 0 + stride ! 0, off ! 1, off ! 2]
      else if off ! 1 + stride ! 1 < end_off ! 1 then [begin_off ! 0, off ! 1 + stride ! 1, off ! 2]
      else [begin_off ! 0, begin_off ! 1, off ! 2 + stride ! 2])"
proof -
  from assms obtain o0 o1 o2 where off: "off = [o0, o1, o2]"
    by (cases off; cases "tl off"; cases "tl (tl off)") auto
  show ?thesis
    unfolding off
    by (simp add: advance.simps Let_def numeral_2_eq_2 numeral_3_eq_3)
qed


lemma min_stride_positive:
  assumes wf: "well_formed self" and pos: "positive_shapes self" and d: "d < chunk_dims self"
  shows "0 < get_common_roi_shape (chunk_spec_template self) ! d"
proof -
  let ?tmpl = "chunk_spec_template self"
  have ne: "?tmpl \<noteq> []" using wf by (simp add: well_formed_def)
  have len: "\<forall>(vt, r) \<in> set ?tmpl. length (roi_shape r) = chunk_dims self"
    using well_formed_entity(2) [OF wf] by auto
  have "0 < get_shape r ! d" if "(vt, r) \<in> set ?tmpl" for vt r
  proof -
    have "list_all (\<lambda>x. 0 < x) (roi_shape r)"
      using pos that by (auto simp: positive_shapes_def list_all_iff)
    moreover have "d < length (roi_shape r)" using len that d by auto
    ultimately show ?thesis by (simp add: list_all_length get_shape_def)
  qed
  then have "\<forall>a \<in> (\<lambda>(vt, r). get_shape r ! d) ` set ?tmpl. 0 < a" by auto
  moreover have "finite ((\<lambda>(vt, r). get_shape r ! d) ` set ?tmpl)"
    "(\<lambda>(vt, r). get_shape r ! d) ` set ?tmpl \<noteq> {}"
    using ne by auto
  ultimately have "0 < Min ((\<lambda>(vt, r). get_shape r ! d) ` set ?tmpl)"
    by (subst Min_gr_iff) auto
  then show ?thesis
    using get_common_roi_shape_nth [OF ne len d] by simp
qed

lemma stride_spec_ge: "min_stride ! d \<le> stride_spec self min_stride end_off off d"
  by (simp add: stride_spec_def)

lemma walk_stops: "\<not> all_less off end_off \<Longrightarrow>
  walk self min_stride begin_off end_off off queue = Some (Inr queue)"
  by (subst walk.simps) simp

lemma walk_terminates_1:
  assumes wf: "well_formed self" and D: "chunk_dims self = 1"
    and ms: "length min_stride = 1" "0 < min_stride ! 0"
    and le: "length end_off = 1"
  shows "length off = 1 \<Longrightarrow>
    \<exists>queue'. walk self min_stride begin_off end_off off queue = Some (Inr queue')"
proof (induction "nat (end_off ! 0 - off ! 0)" arbitrary: off queue rule: less_induct)
  case less
  show ?case
  proof (cases "all_less off end_off")
    case False
    then show ?thesis by (simp add: walk_stops)
  next
    case True
    have D13: "chunk_dims self = 1 \<or> chunk_dims self = 3" using D by simp
    have msD: "length min_stride = chunk_dims self" using ms D by simp
    from walk_step [OF wf D13 msD True, of begin_off queue]
    obtain stride cr where st: "stride ! 0 = stride_spec self min_stride end_off off 0"
      and w: "walk self min_stride begin_off end_off off queue
         = walk self min_stride begin_off end_off
             (advance 1 stride begin_off end_off 0 off) (queue @ [cr])"
      using D by auto
    have s0: "0 < stride ! 0"
      using stride_spec_ge [of min_stride 0 self end_off off] ms(2) st by simp
    let ?off' = "[off ! 0 + stride ! 0]"
    have adv: "advance 1 stride begin_off end_off 0 off = ?off'"
      using less.prems by (rule advance_1)
    from less.prems le obtain x y where xy: "off = [x]" "end_off = [y]"
      by (cases off; cases end_off) auto
    have lt: "off ! 0 < end_off ! 0" using True by (simp add: all_less_def xy)
    have "nat (end_off ! 0 - ?off' ! 0) < nat (end_off ! 0 - off ! 0)"
      using lt s0 by simp
    from less.hyps [OF this, of "queue @ [cr]"] show ?thesis
      using adv by (simp add: w)
  qed
qed

lemma walk_terminates_3:
  assumes wf: "well_formed self" and D: "chunk_dims self = 3"
    and ms: "length min_stride = 3" "\<forall>d < 3. 0 < min_stride ! d"
    and le: "length end_off = 3"
    and lo: "length off = 3"
  shows "\<exists>queue'. walk self min_stride begin_off end_off off queue = Some (Inr queue')"
proof -
  have wfr: "wf (inv_image (less_than <*lex*> less_than <*lex*> less_than)
      (\<lambda>off. (nat (end_off ! 2 - off ! 2), nat (end_off ! 1 - off ! 1), nat (end_off ! 0 - off ! 0))))"
    by (intro wf_inv_image wf_lex_prod wf_less_than)
  from wfr lo show ?thesis
  proof (induct off arbitrary: queue rule: wf_induct_rule)
  case (less off)
  note 2 = less.hyps less.prems
  show ?case
  proof (cases "all_less off end_off")
    case False
    then show ?thesis by (simp add: walk_stops)
  next
    case True
    have D13: "chunk_dims self = 1 \<or> chunk_dims self = 3" using D by simp
    have msD: "length min_stride = chunk_dims self" using ms D by simp
    from walk_step [OF wf D13 msD True, of begin_off queue]
    obtain stride cr where st: "\<forall>d < 3. stride ! d = stride_spec self min_stride end_off off d"
      and w: "walk self min_stride begin_off end_off off queue
         = walk self min_stride begin_off end_off
             (advance 3 stride begin_off end_off 0 off) (queue @ [cr])"
      using D by auto
    have s: "0 < stride ! 0" "0 < stride ! 1" "0 < stride ! 2"
      using stride_spec_ge [of min_stride _ self end_off off] ms(2) st
      by (metis less_le_trans numeral_3_eq_3 zero_less_Suc one_less_numeral_iff semiring_norm(77)
          numeral_2_eq_2 lessI Suc_lessD One_nat_def)+
    let ?off' = "advance 3 stride begin_off end_off 0 off"
    from 2(2) le obtain o0 o1 o2 e0 e1 e2 where xy: "off = [o0, o1, o2]" "end_off = [e0, e1, e2]"
      by (cases off; cases "tl off"; cases "tl (tl off)";
          cases end_off; cases "tl end_off"; cases "tl (tl end_off)") auto
    have lt: "o0 < e0" "o1 < e1" "o2 < e2" using True by (simp_all add: all_less_def xy)
    have adv: "?off' =
       (if o0 + stride ! 0 < e0 then [o0 + stride ! 0, o1, o2]
        else if o1 + stride ! 1 < e1 then [begin_off ! 0, o1 + stride ! 1, o2]
        else [begin_off ! 0, begin_off ! 1, o2 + stride ! 2])"
      using advance_3 [OF 2(2), of stride begin_off end_off] by (simp add: xy)
    have len': "length ?off' = 3"
      unfolding adv by simp
    have "(?off', off) \<in> inv_image (less_than <*lex*> less_than <*lex*> less_than)
      (\<lambda>off. (nat (end_off ! 2 - off ! 2), nat (end_off ! 1 - off ! 1), nat (end_off ! 0 - off ! 0)))"
      unfolding adv using lt s by (simp add: xy)
    from 2(1) [OF this len', of "queue @ [cr]"] show ?thesis
      by (simp add: w)
  qed
  qed
qed


lemma np_min_axis0_length:
  assumes "rows \<noteq> []" "\<forall>x \<in> set rows. length x = n"
  shows "\<exists>v. np_min_axis0 rows = Inr v \<and> length v = n"
proof -
  obtain r rs where rows: "rows = r # rs" using assms(1) by (cases rows) auto
  with assms(2) have "\<forall>x \<in> set rs. length x = length r" "length r = n" by auto
  then show ?thesis
    using foldl_map2_length [of rs r min] by (simp add: np_min_axis0_def rows)
qed

lemma np_max_axis0_length:
  assumes "rows \<noteq> []" "\<forall>x \<in> set rows. length x = n"
  shows "\<exists>v. np_max_axis0 rows = Inr v \<and> length v = n"
proof -
  obtain r rs where rows: "rows = r # rs" using assms(1) by (cases rows) auto
  with assms(2) have "\<forall>x \<in> set rs. length x = length r" "length r = n" by auto
  then show ?thesis
    using foldl_map2_length [of rs r max] by (simp add: np_max_axis0_def rows)
qed

lemma walk_bounds_well_formed:
  assumes wf: "well_formed self"
  shows "\<exists>begin_off end_off.
     walk_bounds self = Inr (get_common_roi_shape (chunk_spec_template self), begin_off, end_off)
     \<and> length begin_off = chunk_dims self \<and> length end_off = chunk_dims self"
proof -
  let ?tmpl = "chunk_spec_template self"
  let ?n = "chunk_dims self"
  let ?init = "map (\<lambda>(vt, r). coord_sub (get_begin (the (map_of (request self) vt))) (get_begin r)) ?tmpl"
  let ?maxs = "map (\<lambda>(vt, r). coord_sub (get_end (the (map_of (request self) vt))) (get_shape r)) ?tmpl"
  have ne: "?tmpl \<noteq> []" using wf by (simp add: well_formed_def)
  have ent: "\<And>vt r. (vt, r) \<in> set ?tmpl \<Longrightarrow>
      length (roi_offset r) = ?n \<and> length (roi_shape r) = ?n
      \<and> the (map_of (request self) vt) = requested self vt
      \<and> length (roi_offset (requested self vt)) = ?n
      \<and> length (roi_shape (requested self vt)) = ?n"
    using well_formed_entity [OF wf] by (auto simp: requested_def)
  have init_len: "\<forall>x \<in> set ?init. length x = ?n"
    using ent by (auto simp: coord_sub_def get_begin_def)
  have maxs_len: "\<forall>x \<in> set ?maxs. length x = ?n"
    using ent by (auto simp: coord_sub_def coord_add_def get_end_def get_shape_def)
  obtain b where b: "np_min_axis0 ?init = Inr b" "length b = ?n"
    using np_min_axis0_length [OF _ init_len] ne by auto
  obtain m where m: "np_max_axis0 ?maxs = Inr m" "length m = ?n"
    using np_max_axis0_length [OF _ maxs_len] ne by auto
  have "walk_bounds self
      = Inr (get_common_roi_shape ?tmpl, b, coord_add m (get_common_roi_shape ?tmpl))"
    using all_initial_offsets_eq [OF well_formed_lookup [OF wf]]
      all_max_offsets_eq [OF well_formed_lookup [OF wf]] b(1) m(1)
    by (simp add: walk_bounds_def Let_def)
  moreover have "length (coord_add m (get_common_roi_shape ?tmpl)) = ?n"
    using m(2) well_formed_min_stride_length [OF wf] by (simp add: coord_add_def)
  ultimately show ?thesis using b(2) by blast
qed

text \<open>
  C5, as the code has it. Schedule building checks no coverage and reports no
  coverage error. For a well-formed chunk node whose template shapes are all
  positive it terminates: with a schedule when the dimensionality is one or
  three, and otherwise with a schedule or one of the errors of the stride buffer.
\<close>

theorem schedule_terminates:
  assumes wf: "well_formed self" and pos: "positive_shapes self"
  shows "schedule self \<noteq> None \<and> prepare_requests self \<noteq> None
     \<and> (chunk_dims self = 1 \<or> chunk_dims self = 3 \<longrightarrow>
          (\<exists>queue. schedule self = Some (Inr queue)))"
proof -
  let ?ms = "get_common_roi_shape (chunk_spec_template self)"
  obtain b e where bounds: "walk_bounds self = Inr (?ms, b, e)"
    and lb: "length b = chunk_dims self" and le: "length e = chunk_dims self"
    using walk_bounds_well_formed [OF wf] by blast
  have ms: "length ?ms = chunk_dims self" by (rule well_formed_min_stride_length [OF wf])
  have sch: "schedule self = walk self ?ms b e b []"
    using bounds by (simp add: schedule_def)
  have ok: "\<exists>queue. schedule self = Some (Inr queue)"
    if D: "chunk_dims self = 1 \<or> chunk_dims self = 3"
  proof -
    from D show ?thesis
    proof
      assume 1: "chunk_dims self = 1"
      have "0 < ?ms ! 0" using min_stride_positive [OF wf pos, of 0] 1 by simp
      from walk_terminates_1 [OF wf 1 _ this, of e b b "[]"] ms le lb 1
      show ?thesis by (simp add: sch)
    next
      assume 3: "chunk_dims self = 3"
      have "\<forall>d < 3. 0 < ?ms ! d" using min_stride_positive [OF wf pos] 3 by simp
      from walk_terminates_3 [OF wf 3 _ this, of e b b "[]"] ms le lb 3
      show ?thesis by (simp add: sch)
    qed
  qed
  have some: "schedule self \<noteq> None"
  proof (cases "chunk_dims self = 1 \<or> chunk_dims self = 3")
    case True
    with ok show ?thesis by auto
  next
    case False
    show ?thesis
    proof (cases "all_less b e")
      case True
      with False first_entity_fails [OF wf ms, of e b "request self" "[]"]
      show ?thesis unfolding sch by (subst walk.simps) simp
    next
      case False
      then show ?thesis by (simp add: sch walk_stops)
    qed
  qed
  have "prepare_requests self \<noteq> None"
    using some by (auto simp: prepare_requests_def split: option.splits sum.splits)
  with some ok show ?thesis by blast
qed

theorem schedule_terminates_witness:
  "well_formed scenario \<and> positive_shapes scenario
   \<and> schedule scenario \<noteq> None \<and> prepare_requests scenario \<noteq> None
   \<and> (\<exists>queue. schedule scenario = Some (Inr queue))"
proof -
  have wf: "well_formed scenario"
    by (simp add: well_formed_def scenario_def)
  have pos: "positive_shapes scenario"
    by (simp add: positive_shapes_def scenario_def)
  have D: "chunk_dims scenario = 1"
    by (simp add: scenario_def)
  from schedule_terminates [OF wf pos] wf pos D show ?thesis by blast
qed


lemma zero_shape_bounds: "walk_bounds zero_shape = Inr ([0], [0], [100])"
  by (simp add: zero_shape_def schedule_defs geometry_defs)

lemma zero_shape_never_returns: "walk zero_shape [0] [0] [100] [0] queue = None"
proof (rule ccontr)
  assume "walk zero_shape [0] [0] [100] [0] queue \<noteq> None"
  then obtain y where ret: "walk zero_shape [0] [0] [100] [0] queue = Some y" by auto
  have "\<not> (self = zero_shape \<and> min_stride = [0] \<and> begin_off = [0] \<and> end_off = [100] \<and> off = [0])"
    if "walk self min_stride begin_off end_off off q = Some r"
    for self min_stride begin_off end_off off q r
  proof (rule walk.raw_induct [where P = "\<lambda>self min_stride begin_off end_off off q r.
      \<not> (self = zero_shape \<and> min_stride = [0] \<and> begin_off = [0] \<and> end_off = [100] \<and> off = [0])",
      OF _ that])
    fix f self min_stride begin_off end_off off q r
    assume IH: "\<And>self min_stride begin_off end_off off q r.
        f self min_stride begin_off end_off off q = Some r \<Longrightarrow>
        \<not> (self = zero_shape \<and> min_stride = [0] \<and> begin_off = [0] \<and> end_off = [100] \<and> off = [0])"
      and eq: "(if all_less off end_off
          then case chunk_entities (request self) min_stride end_off off
                 (chunk_spec_template self) (request self) [] of
               Inl e \<Rightarrow> Some (Inl e)
             | Inr (chunk_request, max_strides) \<Rightarrow>
                 (case np_min_axis0 max_strides of
                    Inl e \<Rightarrow> Some (Inl e)
                  | Inr stride \<Rightarrow>
                      f self min_stride begin_off end_off
                        (advance (chunk_dims self) stride begin_off end_off 0 off)
                        (q @ [chunk_request]))
          else Some (Inr q)) = Some r"
    show "\<not> (self = zero_shape \<and> min_stride = [0] \<and> begin_off = [0] \<and> end_off = [100] \<and> off = [0])"
    proof
      assume a: "self = zero_shape \<and> min_stride = [0] \<and> begin_off = [0] \<and> end_off = [100] \<and> off = [0]"
      with eq have "f zero_shape [0] [0] [100] [0]
          (q @ [[(RAW, \<lparr>roi_offset = [0], roi_shape = [0]\<rparr>)]]) = Some r"
        by (simp add: zero_shape_def schedule_defs geometry_defs advance.simps)
      from IH [OF this] show False by simp
    qed
  qed
  from this [OF ret] show False by simp
qed

text \<open>
  C5 as stated fails: with a template of shape zero (offset 0, one axis) and the
  request at offset 0 of shape 100, every step has stride zero, the walk stays at
  offset 0 and puts sub-requests for ever. Schedule building never returns, and
  so reports nothing.
\<close>

theorem zero_shape_loops: "schedule zero_shape = None \<and> prepare_requests zero_shape = None"
  using zero_shape_never_returns [of "[]"] zero_shape_bounds
  by (simp add: schedule_def prepare_requests_def)

section \<open>Coverage\<close>

text \<open>
  C1 fails on the code. The node below satisfies the preconditions of the
  scheduler: one entity, one axis, the template of shape 30 centred at the origin
  (offset -15), the request at offset 0 of shape 100. The walk bounds are
  \<open>begin = 15\<close> and \<open>end = 100\<close>: \<open>end\<close> is computed from the template shape and
  leaves the template offset out, so it is 15 short. The walk visits 15, 45 and
  75 and schedules the chunks from 0 to 30, from 30 to 60 and from 60 to 90; the
  next offset, 105, is beyond \<open>end\<close>. The requested voxels 90 to 99 lie in no
  sub-request.
\<close>

theorem coverage_fails:
  "well_formed centred_template \<and> positive_shapes centred_template
   \<and> walk_bounds centred_template = Inr ([30], [15], [100])
   \<and> schedule centred_template
       = Some (Inr [raw_chunk_at 0, raw_chunk_at 30, raw_chunk_at 60])
   \<and> roi_has (requested centred_template RAW) [95]
   \<and> \<not> covered RAW [raw_chunk_at 0, raw_chunk_at 30, raw_chunk_at 60] [95]"
  by (simp add: centred_template_def raw_chunk_at_def well_formed_def positive_shapes_def
      requested_def roi_has_def covered_def get_bounding_box_def schedule_defs geometry_defs
      walk.simps advance.simps)

text \<open>
  The same happens with templates at offsets that are not negative, when the
  requests of two entities lie apart: one step jumps over the request of the
  second entity.
\<close>

lemma coverage_fails_apart:
  "well_formed apart \<and> positive_shapes apart
   \<and> walk_bounds apart = Inr ([10], [0], [40])
   \<and> schedule apart
       = Some (Inr [[(RAW, \<lparr>roi_offset = [10], roi_shape = [10]\<rparr>),
                     (GT_LABELS, \<lparr>roi_offset = [0], roi_shape = [30]\<rparr>)]])
   \<and> roi_has (requested apart GT_LABELS) [50]
   \<and> \<not> covered GT_LABELS [[(RAW, \<lparr>roi_offset = [10], roi_shape = [10]\<rparr>),
                     (GT_LABELS, \<lparr>roi_offset = [0], roi_shape = [30]\<rparr>)]] [50]"
  by (simp add: apart_def well_formed_def positive_shapes_def requested_def
      roi_has_def covered_def get_bounding_box_def schedule_defs geometry_defs
      walk.simps advance.simps)

section \<open>Allocating the output\<close>

lemma np_zeros_nonneg:
  "list_all (\<lambda>x. 0 \<le> x) shp \<Longrightarrow>
   np_zeros shp = Inr \<lparr>nd_shape = map nat shp, nd_data = (\<lambda>idx. 0)\<rparr>"
  by (auto simp: np_zeros_def list_all_iff list_ex_iff)

lemma setup_batch_loop_lookup_error:
  assumes "nonneg_shapes req"
    and "(req \<noteq> [] \<and> map_of chunk_batch RAW = None)
         \<or> list_ex (\<lambda>(vt, r). interpolate_table vt = None) req"
  shows "setup_batch_loop req chunk_batch batch = Inl KeyError"
  using assms
proof (induction req arbitrary: batch)
  case Nil
  then show ?case by simp
next
  case (Cons p req)
  obtain vt r where p: "p = (vt, r)" by (cases p)
  from Cons.prems(1) have nn: "list_all (\<lambda>x. 0 \<le> x) (roi_shape r)" and rest: "nonneg_shapes req"
    by (simp_all add: nonneg_shapes_def p)
  show ?case
  proof (cases "interpolate_table vt")
    case None
    then show ?thesis by (simp add: p)
  next
    case (Some interp)
    have "list_all (\<lambda>x. 0 \<le> x) (get_shape r)" "list_all (\<lambda>x. 0 \<le> x) (3 # get_shape r)"
      using nn by (simp_all add: get_shape_def)
    note z = np_zeros_nonneg [OF this(1)] np_zeros_nonneg [OF this(2)]
    show ?thesis
    proof (cases "map_of chunk_batch RAW")
      case None
      then show ?thesis using Some by (simp add: p Let_def z)
    next
      case (Some raw)
      with Cons.prems(2) \<open>interpolate_table vt = Some interp\<close>
      have "list_ex (\<lambda>(vt, r). interpolate_table vt = None) req" by (simp add: p)
      from Cons.IH [OF rest disjI2 [OF this]] show ?thesis
        using Some \<open>interpolate_table vt = Some interp\<close> by (simp add: p Let_def z)
    qed
  qed
qed

lemma setup_batch_loop_resolution:
  assumes "setup_batch_loop req chunk_batch acc = Inr batch"
    and "\<forall>vt vol. map_of acc vt = Some vol \<longrightarrow> P vol"
    and "\<And>raw z r i. map_of chunk_batch RAW = Some raw \<Longrightarrow>
          P \<lparr>vol_data = z, vol_roi = r, vol_resolution = vol_resolution raw, vol_interpolate = i\<rparr>"
  shows "\<forall>vt vol. map_of batch vt = Some vol \<longrightarrow> P vol"
  using assms(1,2)
proof (induction req arbitrary: acc)
  case Nil
  then show ?case by simp
next
  case (Cons p req)
  obtain vt r where p: "p = (vt, r)" by (cases p)
  let ?shp = "if vt = PRED_AFFINITIES \<or> vt = GT_AFFINITIES then 3 # get_shape r else get_shape r"
  from Cons.prems(1) obtain interp z raw where
    i: "interpolate_table vt = Some interp" and z: "np_zeros ?shp = Inr z"
    and raw: "map_of chunk_batch RAW = Some raw"
    and rec: "setup_batch_loop req chunk_batch
        (AList.update vt \<lparr>vol_data = z, vol_roi = r, vol_resolution = vol_resolution raw,
                          vol_interpolate = interp\<rparr> acc) = Inr batch"
    by (auto simp: p Let_def split: option.splits sum.splits)
  show ?case
  proof (rule Cons.IH [OF rec])
    show "\<forall>vt' vol. map_of (AList.update vt \<lparr>vol_data = z, vol_roi = r,
        vol_resolution = vol_resolution raw, vol_interpolate = interp\<rparr> acc) vt' = Some vol \<longrightarrow> P vol"
      using Cons.prems(2) assms(3) [OF raw] by (auto simp: update_conv')
  qed
qed


lemma fill_volumes_resolution:
  assumes "fill_volumes req chunk_batch batch = Inr batch'"
    and "\<forall>vt vol. map_of batch vt = Some vol \<longrightarrow> vol_resolution vol = res"
  shows "\<forall>vt vol. map_of batch' vt = Some vol \<longrightarrow> vol_resolution vol = res"
  using assms
proof (induction chunk_batch arbitrary: batch)
  case Nil
  then show ?case by simp
next
  case (Cons p chunk_batch)
  obtain vt v where p: "p = (vt, v)" by (cases p)
  from Cons.prems(1) obtain out roi_a a' where
    out: "map_of batch vt = Some out"
    and rec: "fill_volumes req chunk_batch (AList.update vt (out\<lparr>vol_data := a'\<rparr>) batch) = Inr batch'"
    by (auto simp: p split: option.splits sum.splits)
  show ?case
  proof (rule Cons.IH [OF rec])
    show "\<forall>vt' vol. map_of (AList.update vt (out\<lparr>vol_data := a'\<rparr>) batch) vt' = Some vol
        \<longrightarrow> vol_resolution vol = res"
      using Cons.prems(2) out by (auto simp: update_conv')
  qed
qed

lemma provide_loop_resolution:
  assumes "provide_loop request_batch req n (Some batch) self env = Some (Inr out, self', env')"
    and "\<forall>vt vol. map_of batch vt = Some vol \<longrightarrow> vol_resolution vol = res"
  shows "\<exists>b. out = Some b \<and> (\<forall>vt vol. map_of b vt = Some vol \<longrightarrow> vol_resolution vol = res)"
  using assms
proof (induction n arbitrary: batch self env)
  case 0
  then show ?case by auto
next
  case (Suc n)
  from Suc.prems(1) obtain chunk_batch self1 env1 b' where
    f: "fill_volumes req chunk_batch batch = Inr b'"
    and rec: "provide_loop request_batch req n (Some b') self1 env1 = Some (Inr out, self', env')"
    by (auto split: option.splits sum.splits)
  from Suc.IH [OF rec fill_volumes_resolution [OF f Suc.prems(2)]] show ?case .
qed

text \<open>
  C10. Let \<^verbatim>\<open>provide\<close> get a first sub-batch, for a request whose regions have no
  negative shape. If the sub-batch has no RAW volume (and the request or the
  sub-batch names an entity at all), or if the request names an entity outside
  the interpolation table, \<^verbatim>\<open>provide\<close> fails with a \<^verbatim>\<open>KeyError\<close>. Every volume
  that \<^verbatim>\<open>__setup_batch\<close> allocates, and every volume of a batch that \<^verbatim>\<open>provide\<close>
  returns, carries the resolution of the RAW volume of that first sub-batch.
\<close>

theorem allocation_lookup_errors:
  assumes first: "num_requests self = Some (Suc n)"
    and chunk: "get_chunk request_batch self env = Some (Inr chunk_batch, self1, env1)"
    and nn: "nonneg_shapes req"
  shows "(map_of chunk_batch RAW = None \<and> (req \<noteq> [] \<or> chunk_batch \<noteq> []) \<longrightarrow>
            provide request_batch self req env = Some (Inl KeyError, self1, env1))
     \<and> (list_ex (\<lambda>(vt, r). interpolate_table vt = None) req \<longrightarrow>
            provide request_batch self req env = Some (Inl KeyError, self1, env1))
     \<and> (\<forall>batch. setup_batch req chunk_batch = Inr batch \<longrightarrow>
          (\<forall>vt vol. map_of batch vt = Some vol \<longrightarrow>
             vol_resolution vol = vol_resolution (the (map_of chunk_batch RAW))))
     \<and> (\<forall>out self' env'. provide request_batch self req env = Some (Inr out, self', env') \<longrightarrow>
          (\<exists>batch. out = Some batch \<and> (\<forall>vt vol. map_of batch vt = Some vol \<longrightarrow>
             vol_resolution vol = vol_resolution (the (map_of chunk_batch RAW)))))"
proof -
  let ?res = "vol_resolution (the (map_of chunk_batch RAW))"
  have prov: "provide request_batch self req env
      = (case setup_batch req chunk_batch of
           Inl e \<Rightarrow> Some (Inl e, self1, env1)
         | Inr b \<Rightarrow>
             (case fill_volumes req chunk_batch b of
                Inl e \<Rightarrow> Some (Inl e, self1, env1)
              | Inr b' \<Rightarrow> provide_loop request_batch req n (Some b') self1 env1))"
    using first chunk by (simp add: provide_def)
  have alloc: "\<forall>vt vol. map_of batch vt = Some vol \<longrightarrow> vol_resolution vol = ?res"
    if "setup_batch req chunk_batch = Inr batch" for batch
    using that unfolding setup_batch_def
    by (rule setup_batch_loop_resolution) simp_all
  have a: "provide request_batch self req env = Some (Inl KeyError, self1, env1)"
    if raw: "map_of chunk_batch RAW = None" and ne: "req \<noteq> [] \<or> chunk_batch \<noteq> []"
  proof (cases "req = []")
    case False
    with raw nn have "setup_batch req chunk_batch = Inl KeyError"
      unfolding setup_batch_def by (intro setup_batch_loop_lookup_error) auto
    then show ?thesis by (simp add: prov)
  next
    case True
    with ne obtain vt v rest where "chunk_batch = (vt, v) # rest"
      by (cases chunk_batch) auto
    then show ?thesis unfolding prov by (simp add: True setup_batch_def)
  qed
  have b: "provide request_batch self req env = Some (Inl KeyError, self1, env1)"
    if "list_ex (\<lambda>(vt, r). interpolate_table vt = None) req"
  proof -
    from that nn have "setup_batch req chunk_batch = Inl KeyError"
      unfolding setup_batch_def by (intro setup_batch_loop_lookup_error) auto
    then show ?thesis by (simp add: prov)
  qed
  have d: "\<exists>batch. out = Some batch \<and> (\<forall>vt vol. map_of batch vt = Some vol \<longrightarrow> vol_resolution vol = ?res)"
    if ret: "provide request_batch self req env = Some (Inr out, self', env')" for out self' env'
  proof -
    from ret obtain b0 b' where s: "setup_batch req chunk_batch = Inr b0"
      and f: "fill_volumes req chunk_batch b0 = Inr b'"
      and l: "provide_loop request_batch req n (Some b') self1 env1 = Some (Inr out, self', env')"
      unfolding prov by (auto split: sum.splits)
    from provide_loop_resolution [OF l fill_volumes_resolution [OF f alloc [OF s]]]
    show ?thesis .
  qed
  from a b alloc d show ?thesis by blast
qed


lemma scenario_setup: "chunk_setup scenario = Some (Inr scenario_ready)"
  by (simp add: chunk_setup_def prepare_requests_def scenario_ready_def scenario_def
      raw_chunk_at_def schedule_defs geometry_defs walk.simps advance.simps)

theorem allocation_lookup_errors_witness:
  "num_requests scenario_ready = Some (Suc 3)
   \<and> get_chunk labels_only scenario_ready env0
       = Some (Inr [(GT_LABELS, labels_volume)],
               scenario_ready\<lparr>requests := Some [raw_chunk_at 30, raw_chunk_at 60, raw_chunk_at 90]\<rparr>,
               env0)
   \<and> nonneg_shapes (request scenario)
   \<and> map_of [(GT_LABELS, labels_volume)] RAW = None
   \<and> provide labels_only scenario_ready (request scenario) env0
       = Some (Inl KeyError,
               scenario_ready\<lparr>requests := Some [raw_chunk_at 30, raw_chunk_at 60, raw_chunk_at 90]\<rparr>,
               env0)"
proof -
  have first: "num_requests scenario_ready = Some (Suc 3)"
    by (simp add: scenario_ready_def)
  have chunk: "get_chunk labels_only scenario_ready env0
       = Some (Inr [(GT_LABELS, labels_volume)],
               scenario_ready\<lparr>requests := Some [raw_chunk_at 30, raw_chunk_at 60, raw_chunk_at 90]\<rparr>,
               env0)"
    by (simp add: get_chunk_def scenario_ready_def scenario_def labels_only_def env0_def)
  have nn: "nonneg_shapes (request scenario)"
    by (simp add: nonneg_shapes_def scenario_def)
  have raw: "map_of [(GT_LABELS, labels_volume)] RAW = None"
    by simp
  have ne: "request scenario \<noteq> [] \<or> [(GT_LABELS, labels_volume)] \<noteq> []"
    by simp
  from allocation_lookup_errors [OF first chunk nn] raw ne first chunk nn show ?thesis
    by blast
qed

lemmas array_defs =
  np_zeros_def clamp_index_def slice_ranges_def take_block_def getitem_slices_def
  broadcast_index_def in_ranges_def put_block_def setitem_slices_def fill_def intersect_def
  get_bounding_box_def
  interpolate_table_def setup_batch_def

section \<open>The loop of provide\<close>

lemma first_provide:
  "returns_batch (provide serve_ones scenario_ready (request scenario) env0)
   \<and> state_after (provide serve_ones scenario_ready (request scenario) env0)
       = Some (scenario_spent, env0)"
  by (simp add: returns_batch_def state_after_def provide_def get_chunk_def scenario_ready_def
      scenario_spent_def scenario_def raw_chunk_at_def serve_ones_def env0_def
      array_defs geometry_defs Let_def numeral_eq_Suc)


lemma get_chunk_single:
  assumes "num_workers self \<le> 1" "requests self = Some (chunk_request # rest)"
  shows "get_chunk request_batch self env
     = Some (fst (request_batch (upstream_state env) chunk_request),
             self\<lparr>requests := Some rest\<rparr>,
             env\<lparr>upstream_state := snd (request_batch (upstream_state env) chunk_request)\<rparr>)"
  using assms by (simp add: get_chunk_def split: prod.splits)

lemma get_chunk_blocks:
  assumes "num_workers self \<le> 1" "requests self = Some []"
  shows "get_chunk request_batch self env = None"
  using assms by (simp add: get_chunk_def)

lemma provide_loop_consumes:
  assumes "num_workers self \<le> 1" "requests self = Some q"
    and "provide_loop request_batch req n batch self env = Some (res, self', env')"
  shows "\<exists>k \<le> n. k \<le> length q \<and> self' = self\<lparr>requests := Some (drop k q)\<rparr>
     \<and> pool_results env' = pool_results env \<and> (\<forall>b. res = Inr b \<longrightarrow> k = n)"
  using assms
proof (induction n arbitrary: batch self env q)
  case 0
  then have "self' = self\<lparr>requests := Some (drop 0 q)\<rparr>" "env' = env" "0 \<le> length q"
    by auto
  then show ?case by auto
next
  case (Suc n)
  show ?case
  proof (cases q)
    case Nil
    with Suc.prems show ?thesis by (simp add: get_chunk_blocks)
  next
    case (Cons c rest)
    let ?r = "request_batch (upstream_state env) c"
    let ?self1 = "self\<lparr>requests := Some rest\<rparr>"
    let ?env1 = "env\<lparr>upstream_state := snd ?r\<rparr>"
    have gc: "get_chunk request_batch self env = Some (fst ?r, ?self1, ?env1)"
      using Suc.prems(1,2) Cons by (simp add: get_chunk_single)
    have one: "\<exists>k \<le> Suc n. k \<le> length q \<and> ?self1 = self\<lparr>requests := Some (drop k q)\<rparr>
        \<and> pool_results ?env1 = pool_results env \<and> (\<forall>b. Inl e = Inr b \<longrightarrow> k = Suc n)" for e :: error
      by (rule exI [of _ 1]) (simp add: Cons)
    show ?thesis
    proof (cases "fst ?r")
      case (Inl e)
      with Suc.prems(3) gc have "res = Inl e" "self' = ?self1" "env' = ?env1" by auto
      with one [of e] show ?thesis by simp
    next
      case (Inr chunk_batch)
      show ?thesis
      proof (cases "case batch of None \<Rightarrow> setup_batch req chunk_batch | Some b \<Rightarrow> Inr b")
        case (Inl e)
        with Suc.prems(3) gc \<open>fst ?r = Inr chunk_batch\<close>
        have "res = Inl e" "self' = ?self1" "env' = ?env1" by auto
        with one [of e] show ?thesis by simp
      next
        case b: (Inr b)
        show ?thesis
        proof (cases "fill_volumes req chunk_batch b")
          case (Inl e)
          with Suc.prems(3) gc \<open>fst ?r = Inr chunk_batch\<close> b
          have "res = Inl e" "self' = ?self1" "env' = ?env1" by auto
          with one [of e] show ?thesis by simp
        next
          case (Inr b')
          with Suc.prems(3) gc \<open>fst ?r = Inr chunk_batch\<close> b
          have rec: "provide_loop request_batch req n (Some b') ?self1 ?env1 = Some (res, self', env')"
            by simp
          have "num_workers ?self1 \<le> 1" "requests ?self1 = Some rest"
            using Suc.prems(1) by simp_all
          from Suc.IH [OF this rec] obtain k where k: "k \<le> n" "k \<le> length rest"
            "self' = ?self1\<lparr>requests := Some (drop k rest)\<rparr>"
            "pool_results env' = pool_results ?env1" "\<forall>b. res = Inr b \<longrightarrow> k = n"
            by blast
          show ?thesis
            by (rule exI [of _ "Suc k"]) (use k in \<open>simp add: Cons\<close>)
        qed
      qed
    qed
  qed
qed


lemma provide_loop_log:
  assumes "num_workers self \<le> 1" "requests self = Some q"
    and "provide_loop (logged request_batch) req n batch self env = Some (res, self', env')"
  shows "\<exists>q'. requests self' = Some q'
     \<and> snd (upstream_state env') @ q' = snd (upstream_state env) @ q"
  using assms
proof (induction n arbitrary: batch self env q)
  case 0
  then show ?case by auto
next
  case (Suc n)
  show ?case
  proof (cases q)
    case Nil
    with Suc.prems show ?thesis by (simp add: get_chunk_blocks)
  next
    case (Cons c rest)
    let ?r = "logged request_batch (upstream_state env) c"
    let ?self1 = "self\<lparr>requests := Some rest\<rparr>"
    let ?env1 = "env\<lparr>upstream_state := snd ?r\<rparr>"
    have gc: "get_chunk (logged request_batch) self env = Some (fst ?r, ?self1, ?env1)"
      using Suc.prems(1,2) Cons by (simp add: get_chunk_single)
    have log: "snd (snd ?r) = snd (upstream_state env) @ [c]"
      by (simp add: logged_def split: prod.splits)
    have one: "\<exists>q'. requests ?self1 = Some q'
        \<and> snd (upstream_state ?env1) @ q' = snd (upstream_state env) @ q"
      using log by (simp add: Cons)
    from Suc.prems(3) gc consider
        (stop) "self' = ?self1" "env' = ?env1"
      | (go) b' where "provide_loop (logged request_batch) req n (Some b') ?self1 ?env1
                         = Some (res, self', env')"
      by (auto split: sum.splits)
    then show ?thesis
    proof cases
      case stop
      with one show ?thesis by simp
    next
      case go
      have "num_workers ?self1 \<le> 1" "requests ?self1 = Some rest"
        using Suc.prems(1) by simp_all
      from Suc.IH [OF this go] obtain q' where "requests self' = Some q'"
        "snd (upstream_state env') @ q' = snd (upstream_state ?env1) @ rest"
        by blast
      then show ?thesis using log by (simp add: Cons)
    qed
  qed
qed

lemma provide_loop_pool:
  assumes "num_workers self \<le> 1"
  shows "provide_loop request_batch req n batch self (env\<lparr>pool_results := p\<rparr>)
     = map_option (\<lambda>(res, self', env'). (res, self', env'\<lparr>pool_results := p\<rparr>))
         (provide_loop request_batch req n batch self env)"
  using assms
proof (induction n arbitrary: batch self env)
  case 0
  then show ?case by simp
next
  case (Suc n)
  show ?case
  proof (cases "requests self")
    case None
    with Suc.prems show ?thesis by (simp add: get_chunk_def)
  next
    case (Some q)
    show ?thesis
    proof (cases q)
      case Nil
      with Suc.prems Some show ?thesis by (simp add: get_chunk_blocks)
    next
      case (Cons c rest)
      let ?r = "request_batch (upstream_state env) c"
      let ?self1 = "self\<lparr>requests := Some rest\<rparr>"
      let ?env1 = "env\<lparr>upstream_state := snd ?r\<rparr>"
      have gc: "get_chunk request_batch self env = Some (fst ?r, ?self1, ?env1)"
        "get_chunk request_batch self (env\<lparr>pool_results := p\<rparr>)
           = Some (fst ?r, ?self1, ?env1\<lparr>pool_results := p\<rparr>)"
        using Suc.prems Some Cons by (simp_all add: get_chunk_single)
      have "num_workers ?self1 \<le> 1" using Suc.prems by simp
      note IH = Suc.IH [OF this, of _ ?env1]
      show ?thesis
        by (simp add: gc IH split: sum.splits option.splits)
    qed
  qed
qed


text \<open>
  C7. With at most one worker, \<^verbatim>\<open>provide\<close> takes the sub-requests from the front
  of the queue and calls the upstream provider with them one after the other:
  whenever it returns, the log of upstream calls has grown by the first \<open>k\<close>
  sub-requests of the queue in their order, these \<open>k\<close> have left the queue, and
  \<open>k\<close> is \<open>num_requests\<close> when a batch is returned. The result does not depend on
  what the worker pool would hand out, the only thing in the model that is not
  fixed by the inputs: two runs on the same inputs give the same batch.
\<close>

theorem single_worker_in_order:
  assumes sw: "num_workers self \<le> 1"
    and n: "num_requests self = Some n"
    and q: "requests self = Some q"
  shows "(\<forall>res self' env'.
            provide (logged request_batch) self req env_l = Some (res, self', env') \<longrightarrow>
            (\<exists>k \<le> n. snd (upstream_state env') = snd (upstream_state env_l) @ take k q
               \<and> requests self' = Some (drop k q)
               \<and> (\<forall>b. res = Inr b \<longrightarrow> k = n)))
     \<and> map_option (\<lambda>(res, self', env'). (res, self', upstream_state env'))
           (provide request_batch self req (env\<lparr>pool_results := p1\<rparr>))
       = map_option (\<lambda>(res, self', env'). (res, self', upstream_state env'))
           (provide request_batch self req (env\<lparr>pool_results := p2\<rparr>))"
proof
  show "\<forall>res self' env'.
      provide (logged request_batch) self req env_l = Some (res, self', env') \<longrightarrow>
      (\<exists>k \<le> n. snd (upstream_state env') = snd (upstream_state env_l) @ take k q
         \<and> requests self' = Some (drop k q)
         \<and> (\<forall>b. res = Inr b \<longrightarrow> k = n))"
  proof (intro allI impI)
    fix res self' env'
    assume "provide (logged request_batch) self req env_l = Some (res, self', env')"
    then have loop: "provide_loop (logged request_batch) req n None self env_l
        = Some (res, self', env')"
      using n by (simp add: provide_def)
    from provide_loop_consumes [OF sw q loop] obtain k where k: "k \<le> n" "k \<le> length q"
      "self' = self\<lparr>requests := Some (drop k q)\<rparr>" "\<forall>b. res = Inr b \<longrightarrow> k = n"
      by blast
    from provide_loop_log [OF sw q loop] k(3)
    have "snd (upstream_state env') @ drop k q = snd (upstream_state env_l) @ q"
      by simp
    also have "\<dots> = (snd (upstream_state env_l) @ take k q) @ drop k q"
      by simp
    finally have "snd (upstream_state env') = snd (upstream_state env_l) @ take k q"
      by (simp only: append_same_eq)
    with k show "\<exists>k \<le> n. snd (upstream_state env') = snd (upstream_state env_l) @ take k q
         \<and> requests self' = Some (drop k q) \<and> (\<forall>b. res = Inr b \<longrightarrow> k = n)"
      by auto
  qed
next
  have "provide request_batch self req (env\<lparr>pool_results := p\<rparr>)
      = map_option (\<lambda>(res, self', env'). (res, self', env'\<lparr>pool_results := p\<rparr>))
          (provide request_batch self req env)" for p
    using n provide_loop_pool [OF sw] by (simp add: provide_def)
  then show "map_option (\<lambda>(res, self', env'). (res, self', upstream_state env'))
           (provide request_batch self req (env\<lparr>pool_results := p1\<rparr>))
       = map_option (\<lambda>(res, self', env'). (res, self', upstream_state env'))
           (provide request_batch self req (env\<lparr>pool_results := p2\<rparr>))"
    by (simp add: option.map_comp comp_def case_prod_unfold)
qed

lemma chunk_setup_queue:
  assumes "chunk_setup self0 = Some (Inr self)"
  shows "\<exists>q. requests self = Some q \<and> num_requests self = Some (length q)
     \<and> num_workers self = num_workers self0"
  using assms
  by (auto simp: chunk_setup_def prepare_requests_def split: option.splits sum.splits)

text \<open>
  C8, as the code has it. The schedule is built by \<^verbatim>\<open>setup\<close> only. With at most
  one worker, a \<^verbatim>\<open>provide\<close> that returns has taken all \<open>num_requests\<close>
  sub-requests and leaves the queue empty, and \<open>num_requests\<close> as it was;
  \<^verbatim>\<open>provide\<close> builds no schedule, so unless \<open>num_requests\<close> is zero the next
  \<^verbatim>\<open>provide\<close>, for any request, waits on the empty queue and never returns.
\<close>

theorem schedule_consumed_once:
  assumes built: "chunk_setup self0 = Some (Inr self)"
    and sw: "num_workers self \<le> 1"
    and first: "provide request_batch self req env = Some (Inr out, self', env')"
  shows "requests self' = Some [] \<and> num_requests self' = num_requests self
     \<and> (num_requests self \<noteq> Some 0 \<longrightarrow> provide request_batch2 self' req2 env2 = None)"
proof -
  from chunk_setup_queue [OF built] obtain q where q: "requests self = Some q"
    and n: "num_requests self = Some (length q)"
    by blast
  from first n have loop: "provide_loop request_batch req (length q) None self env
      = Some (Inr out, self', env')"
    by (simp add: provide_def)
  from provide_loop_consumes [OF sw q loop]
  have self': "self' = self\<lparr>requests := Some []\<rparr>"
    by auto
  have blocks: "provide request_batch2 self' req2 env2 = None" if "num_requests self \<noteq> Some 0"
  proof -
    from that n obtain m where "length q = Suc m" by (cases "length q") auto
    then show ?thesis
      using n sw by (simp add: provide_def self' get_chunk_blocks)
  qed
  show ?thesis using self' blocks by simp
qed

lemma second_provide_blocks: "provide serve_ones scenario_spent (request scenario) env0 = None"
  by (simp add: provide_def scenario_spent_def scenario_ready_def scenario_def get_chunk_def
      numeral_eq_Suc)


theorem single_worker_in_order_witness:
  "num_workers scenario_ready \<le> 1 \<and> num_requests scenario_ready = Some 4
   \<and> requests scenario_ready
       = Some [raw_chunk_at 0, raw_chunk_at 30, raw_chunk_at 60, raw_chunk_at 90]
   \<and> map_option (\<lambda>(res, self', env'). (res, self', upstream_state env'))
         (provide serve_ones scenario_ready (request scenario) (env0\<lparr>pool_results := [[]]\<rparr>))
     = map_option (\<lambda>(res, self', env'). (res, self', upstream_state env'))
         (provide serve_ones scenario_ready (request scenario) (env0\<lparr>pool_results := []\<rparr>))"
proof -
  have sw: "num_workers scenario_ready \<le> 1"
    by (simp add: scenario_ready_def scenario_def)
  have n: "num_requests scenario_ready = Some 4"
    by (simp add: scenario_ready_def)
  have q: "requests scenario_ready
       = Some [raw_chunk_at 0, raw_chunk_at 30, raw_chunk_at 60, raw_chunk_at 90]"
    by (simp add: scenario_ready_def)
  from single_worker_in_order [OF sw n q, THEN conjunct2] sw n q show ?thesis
    by blast
qed

lemma scenario_calls_in_order:
  "map_option (\<lambda>(res, self', env'). snd (upstream_state env'))
     (provide (logged serve_ones) scenario_ready (request scenario)
        \<lparr>upstream_state = ((), []), pool_results = []\<rparr>)
   = Some [raw_chunk_at 0, raw_chunk_at 30, raw_chunk_at 60, raw_chunk_at 90]"
  by (simp add: provide_def get_chunk_def scenario_ready_def logged_def
      scenario_def raw_chunk_at_def serve_ones_def
      array_defs geometry_defs Let_def numeral_eq_Suc)

theorem schedule_consumed_once_witness:
  "chunk_setup scenario = Some (Inr scenario_ready) \<and> num_workers scenario_ready \<le> 1
   \<and> returns_batch (provide serve_ones scenario_ready (request scenario) env0)
   \<and> requests scenario_spent = Some []
   \<and> num_requests scenario_spent = num_requests scenario_ready
   \<and> provide serve_ones scenario_spent (request scenario) env0 = None"
proof -
  have sw: "num_workers scenario_ready \<le> 1"
    by (simp add: scenario_ready_def scenario_def)
  have nz: "num_requests scenario_ready \<noteq> Some 0"
    by (simp add: scenario_ready_def)
  from first_provide obtain out where first:
    "provide serve_ones scenario_ready (request scenario) env0
       = Some (Inr out, scenario_spent, env0)"
    by (auto simp: returns_batch_def state_after_def split: option.splits sum.splits)
  from schedule_consumed_once [OF scenario_setup sw first, of serve_ones "request scenario" env0]
    nz scenario_setup sw first_provide
  show ?thesis by blast
qed

text \<open>
  C8 as stated fails: in the scenario the first \<^verbatim>\<open>provide\<close> returns a batch and
  leaves the queue empty, and the second \<^verbatim>\<open>provide\<close> on the same chunk node
  never returns.
\<close>

theorem second_provide_stalls:
  "chunk_setup scenario = Some (Inr scenario_ready)
   \<and> returns_batch (provide serve_ones scenario_ready (request scenario) env0)
   \<and> state_after (provide serve_ones scenario_ready (request scenario) env0)
       = Some (scenario_spent, env0)
   \<and> provide serve_ones scenario_spent (request scenario) env0 = None"
  by (simp add: scenario_setup first_provide second_provide_blocks)

section \<open>Filling a sub-batch into the output\<close>

lemma in_ranges_append:
  "length rs1 = length i1 \<Longrightarrow>
   in_ranges (rs1 @ rs2) (i1 @ i2) = (in_ranges rs1 i1 \<and> in_ranges rs2 i2)"
  by (auto simp: in_ranges_def)

lemma in_ranges_lead:
  "length ch = length lead \<Longrightarrow> in_ranges (map (Pair 0) lead) ch = channel_ok lead ch"
  by (induction ch lead rule: list_induct2) (auto simp: in_ranges_def channel_ok_def)

lemma in_ranges_nth:
  "in_ranges rs idx =
     (length idx = length rs \<and> (\<forall>j < length rs. fst (rs ! j) \<le> idx ! j \<and> idx ! j < fst (rs ! j) + snd (rs ! j)))"
  by (auto simp: in_ranges_def list_all_length case_prod_unfold)

lemma broadcast_index_same:
  "broadcast_index shp shp = Some (\<lambda>idx. map2 (\<lambda>s i. if s = Suc 0 then 0 else i) shp idx)"
proof -
  have "list_all (\<lambda>(s, d). s = d \<or> s = 1) (zip shp shp)"
    by (induction shp) auto
  then show ?thesis by (simp add: broadcast_index_def)
qed

lemma map2_unit_axes:
  assumes "length i = length shp" "\<forall>j < length shp. i ! j < shp ! j"
  shows "map2 (\<lambda>s i. if s = Suc 0 then 0 else i) shp i = i"
  using assms by (intro nth_equalityI) auto

lemma map2_minus_zeros: "length ch = n \<Longrightarrow> map2 (-) ch (replicate n (0::nat)) = ch"
  by (auto intro: nth_equalityI)

lemma map2_plus_zeros: "length ch = n \<Longrightarrow> map2 (+) (replicate n (0::nat)) ch = ch"
  by (auto intro: nth_equalityI)

lemma put_take_block_eq:
  fixes a b :: "'v ndarray"
  assumes len: "length sta = length cnt" "length stb = length cnt"
  shows "put_block a (map (Pair 0) lead @ zip sta cnt)
           (take_block b (map (Pair 0) lead @ zip stb cnt))
     = Inr (a\<lparr>nd_data := (\<lambda>idx. if in_ranges (map (Pair 0) lead @ zip sta cnt) idx
         then nd_data (take_block b (map (Pair 0) lead @ zip stb cnt))
                (map2 (\<lambda>s i. if s = Suc 0 then 0 else i)
                   (map snd (map (Pair 0) lead @ zip sta cnt))
                   (map2 (-) idx (map fst (map (Pair 0) lead @ zip sta cnt))))
         else nd_data a idx)\<rparr>)"
proof -
  have "map snd (map (Pair 0) lead @ zip stb cnt) = map snd (map (Pair 0) lead @ zip sta cnt)"
    using len by (simp add: comp_def)
  then show ?thesis
    unfolding put_block_def
    by (simp add: take_block_def broadcast_index_same del: map_append)
qed

lemma put_take_block_at:
  fixes a b :: "'v ndarray"
  assumes put: "put_block a (map (Pair 0) lead @ zip sta cnt)
                 (take_block b (map (Pair 0) lead @ zip stb cnt)) = Inr a'"
    and ch: "channel_ok lead ch"
    and len: "length sta = length cnt" "length stb = length cnt" "length i = length cnt"
  shows "nd_shape a' = nd_shape a"
    and "nd_data a' (ch @ i)
         = (if in_ranges (zip sta cnt) i
            then nd_data b (ch @ map2 (+) stb (map2 (-) i sta))
            else nd_data a (ch @ i))"
proof -
  let ?rs_a = "map (Pair 0) lead @ zip sta cnt"
  let ?rs_b = "map (Pair 0) lead @ zip stb cnt"
  let ?g = "\<lambda>s i. if s = Suc 0 then 0 else i"
  have snd_eq: "map snd ?rs_a = lead @ cnt"
    using len by (simp add: comp_def)
  have fst_a: "map fst ?rs_a = replicate (length lead) 0 @ sta"
    and fst_b: "map fst ?rs_b = replicate (length lead) 0 @ stb"
    using len by (simp_all add: comp_def map_replicate_const)
  have lch: "length ch = length lead" using ch by (simp add: channel_ok_def)
  let ?a' = "a\<lparr>nd_data := (\<lambda>idx. if in_ranges ?rs_a idx
       then nd_data (take_block b ?rs_b) (map2 ?g (map snd ?rs_a) (map2 (-) idx (map fst ?rs_a)))
       else nd_data a idx)\<rparr>"
  have a': "a' = ?a'"
    using put put_take_block_eq [OF len(1,2), of a lead b] by simp
  show "nd_shape a' = nd_shape a" by (simp add: a')
  have inr: "in_ranges ?rs_a (ch @ i) = in_ranges (zip sta cnt) i"
    using in_ranges_append [of "map (Pair 0) lead" ch "zip sta cnt" i] in_ranges_lead [OF lch] ch lch
    by simp
  have val: "nd_data (take_block b ?rs_b) (map2 ?g (map snd ?rs_a) (map2 (-) (ch @ i) (map fst ?rs_a)))
      = nd_data b (ch @ map2 (+) stb (map2 (-) i sta))" if "in_ranges (zip sta cnt) i"
  proof -
    have sub: "map2 (-) (ch @ i) (map fst ?rs_a) = ch @ map2 (-) i sta"
      unfolding fst_a using lch by (simp add: map2_minus_zeros)
    have bound: "\<forall>j < length cnt. map2 (-) i sta ! j < cnt ! j"
      using that len by (auto simp: in_ranges_nth)
    have chb: "\<forall>j < length lead. ch ! j < lead ! j"
      using ch by (auto simp: channel_ok_def list_all_length)
    have g: "map2 ?g (lead @ cnt) (ch @ map2 (-) i sta) = ch @ map2 (-) i sta"
    proof (rule map2_unit_axes)
      show "length (ch @ map2 (-) i sta) = length (lead @ cnt)" using lch len by simp
      show "\<forall>j < length (lead @ cnt). (ch @ map2 (-) i sta) ! j < (lead @ cnt) ! j"
        using chb bound lch by (auto simp: nth_append)
    qed
    have add: "map2 (+) (map fst ?rs_b) (ch @ map2 (-) i sta) = ch @ map2 (+) stb (map2 (-) i sta)"
      unfolding fst_b using lch by (simp add: map2_plus_zeros)
    show ?thesis
      by (simp add: take_block_def sub snd_eq g add del: map_append)
  qed
  show "nd_data a' (ch @ i)
         = (if in_ranges (zip sta cnt) i
            then nd_data b (ch @ map2 (+) stb (map2 (-) i sta))
            else nd_data a (ch @ i))"
    unfolding a' using inr val by simp
qed

lemma roi_has_nth:
  assumes "roi_ok n r"
  shows "roi_has r p =
     (length p = n \<and> (\<forall>k < n. roi_offset r ! k \<le> p ! k
                          \<and> p ! k < roi_offset r ! k + roi_shape r ! k))"
  using assms
  by (auto simp: roi_has_def roi_ok_def get_bounding_box_def get_begin_def get_end_def
      coord_add_def list_all_length)

lemma intersect_Some:
  assumes a: "roi_ok n ra" and b: "roi_ok n rb" and c: "intersect ra rb = Some c"
  shows "roi_offset c = map2 max (roi_offset ra) (roi_offset rb)"
    and "roi_shape c = map2 (-) (map2 min (get_end ra) (get_end rb))
                               (map2 max (roi_offset ra) (roi_offset rb))"
    and "\<forall>k < n. max (roi_offset ra ! k) (roi_offset rb ! k)
                  < min (get_end ra ! k) (get_end rb ! k)"
proof -
  let ?lo = "map2 max (roi_offset ra) (roi_offset rb)"
  let ?hi = "map2 min (get_end ra) (get_end rb)"
  from c have ex: "\<not> list_ex (\<lambda>(l, h). h \<le> l) (zip ?lo ?hi)"
    and ceq: "c = \<lparr>roi_offset = ?lo, roi_shape = coord_sub ?hi ?lo\<rparr>"
    by (auto simp: intersect_def get_begin_def Let_def split: if_splits)
  show "roi_offset c = ?lo" "roi_shape c = map2 (-) ?hi ?lo"
    by (simp_all add: ceq coord_sub_def)
  have len: "length ?lo = n" "length ?hi = n"
    using a b by (simp_all add: roi_ok_def get_end_def coord_add_def)
  show "\<forall>k < n. max (roi_offset ra ! k) (roi_offset rb ! k)
                  < min (get_end ra ! k) (get_end rb ! k)"
  proof (intro allI impI)
    fix k assume k: "k < n"
    have lens: "length (roi_offset ra) = n" "length (roi_offset rb) = n"
      "length (get_end ra) = n" "length (get_end rb) = n"
      using a b by (simp_all add: roi_ok_def get_end_def coord_add_def)
    have "k < length (zip ?lo ?hi)" using len k by simp
    then have "zip ?lo ?hi ! k \<in> set (zip ?lo ?hi)" by (rule nth_mem)
    moreover have "zip ?lo ?hi ! k = (?lo ! k, ?hi ! k)" using len k by simp
    ultimately have "(?lo ! k, ?hi ! k) \<in> set (zip ?lo ?hi)" by simp
    with ex have "?lo ! k < ?hi ! k"
      by (auto simp: list_ex_iff)
    then show "max (roi_offset ra ! k) (roi_offset rb ! k)
                  < min (get_end ra ! k) (get_end rb ! k)"
      using k lens by simp
  qed
qed

lemma get_end_nth:
  "roi_ok n r \<Longrightarrow> k < n \<Longrightarrow> get_end r ! k = roi_offset r ! k + roi_shape r ! k"
  by (simp add: roi_ok_def get_end_def coord_add_def)

lemma roi_shape_nonneg:
  "roi_ok n r \<Longrightarrow> k < n \<Longrightarrow> 0 \<le> roi_shape r ! k"
  by (simp add: roi_ok_def list_all_length)

lemma intersect_None:
  assumes a: "roi_ok n ra" and b: "roi_ok n rb" and c: "intersect ra rb = None"
  shows "\<not> (roi_has ra p \<and> roi_has rb p)"
proof
  assume both: "roi_has ra p \<and> roi_has rb p"
  let ?lo = "map2 max (roi_offset ra) (roi_offset rb)"
  let ?hi = "map2 min (get_end ra) (get_end rb)"
  from c have "list_ex (\<lambda>(l, h). h \<le> l) (zip ?lo ?hi)"
    by (auto simp: intersect_def get_begin_def Let_def split: if_splits)
  then obtain k where k: "k < n" and le: "?hi ! k \<le> ?lo ! k"
    using a b by (auto simp: list_ex_iff set_zip roi_ok_def get_end_def coord_add_def)
  from k le a b have "min (get_end ra ! k) (get_end rb ! k)
      \<le> max (roi_offset ra ! k) (roi_offset rb ! k)"
    by (simp add: roi_ok_def get_end_def coord_add_def)
  moreover from both k have "roi_offset ra ! k \<le> p ! k" "p ! k < get_end ra ! k"
    "roi_offset rb ! k \<le> p ! k" "p ! k < get_end rb ! k"
    using roi_has_nth [OF a, of p] roi_has_nth [OF b, of p] get_end_nth [OF a k] get_end_nth [OF b k]
    by auto
  ultimately show False by linarith
qed

lemma intersect_has:
  assumes a: "roi_ok n ra" and b: "roi_ok n rb" and c: "intersect ra rb = Some c"
  shows "roi_ok n c" and "roi_has c p = (roi_has ra p \<and> roi_has rb p)"
proof -
  note i = intersect_Some [OF a b c]
  have lens: "length (roi_offset ra) = n" "length (roi_offset rb) = n"
    "length (get_end ra) = n" "length (get_end rb) = n"
    using a b by (simp_all add: roi_ok_def get_end_def coord_add_def)
  have off: "roi_offset c ! k = max (roi_offset ra ! k) (roi_offset rb ! k)" if "k < n" for k
    using that lens by (simp add: i(1))
  have shp: "roi_shape c ! k = min (get_end ra ! k) (get_end rb ! k)
      - max (roi_offset ra ! k) (roi_offset rb ! k)" if "k < n" for k
    using that lens by (simp add: i(2))
  show ok: "roi_ok n c"
    using i(3) shp lens unfolding roi_ok_def list_all_length
    by (auto simp: i(1) i(2)) 
  show "roi_has c p = (roi_has ra p \<and> roi_has rb p)"
    unfolding roi_has_nth [OF ok] roi_has_nth [OF a] roi_has_nth [OF b]
    using off shp get_end_nth [OF a] get_end_nth [OF b]
    by (auto simp: max_def min_def) 
qed

lemma intersect_inside:
  assumes a: "roi_ok n ra" and b: "roi_ok n rb" and c: "intersect ra rb = Some c"
  shows "roi_inside n c ra" and "roi_inside n c rb"
proof -
  note i = intersect_Some [OF a b c]
  have lens: "length (roi_offset ra) = n" "length (roi_offset rb) = n"
    "length (get_end ra) = n" "length (get_end rb) = n"
    using a b by (simp_all add: roi_ok_def get_end_def coord_add_def)
  have off: "roi_offset c ! k = max (roi_offset ra ! k) (roi_offset rb ! k)" if "k < n" for k
    using that lens by (simp add: i(1))
  have shp: "roi_shape c ! k = min (get_end ra ! k) (get_end rb ! k)
      - max (roi_offset ra ! k) (roi_offset rb ! k)" if "k < n" for k
    using that lens by (simp add: i(2))
  show "roi_inside n c ra" "roi_inside n c rb"
    unfolding roi_inside_def list_all_iff
    using off shp get_end_nth [OF a] get_end_nth [OF b] by auto
qed

lemma slice_range_inside:
  assumes "0 \<le> s" "0 \<le> c" "s + c \<le> int m"
  shows "slice_range m (Slice s (s + c)) = (nat s, nat c)"
  using assms by (auto simp: clamp_index_def)

lemma slice_ranges_inside:
  assumes r: "roi_ok n r" and c: "roi_ok n c" and inside: "roi_inside n c r"
  shows "slice_ranges (lead @ map nat (roi_shape r))
           (replicate (length lead) SliceAll
              @ map (\<lambda>(s, e). Slice s e) (get_bounding_box (roi_sub c (get_offset r))))
         = Inr (map (Pair 0) lead
                  @ zip (map nat (coord_sub (roi_offset c) (roi_offset r))) (map nat (roi_shape c)))"
proof -
  let ?slices = "map (\<lambda>(s, e). Slice s e) (get_bounding_box (roi_sub c (get_offset r)))"
  let ?sta = "map nat (coord_sub (roi_offset c) (roi_offset r))"
  let ?cnt = "map nat (roi_shape c)"
  have lens: "length (roi_offset r) = n" "length (roi_shape r) = n"
    "length (roi_offset c) = n" "length (roi_shape c) = n"
    using r c by (simp_all add: roi_ok_def)
  have ls: "length ?slices = n"
    using lens by (simp add: get_bounding_box_def roi_sub_def get_begin_def get_end_def
        get_offset_def coord_add_def coord_sub_def)
  have sl: "?slices ! k = Slice (roi_offset c ! k - roi_offset r ! k)
      ((roi_offset c ! k - roi_offset r ! k) + roi_shape c ! k)" if "k < n" for k
    using that lens by (simp add: get_bounding_box_def roi_sub_def get_begin_def get_end_def
        get_offset_def coord_add_def coord_sub_def)
  have lead: "map2 slice_range lead (replicate (length lead) SliceAll) = map (Pair 0) lead"
    by (intro nth_equalityI) auto
  have spatial: "map2 slice_range (map nat (roi_shape r)) ?slices = zip ?sta ?cnt"
  proof (intro nth_equalityI)
    show "length (map2 slice_range (map nat (roi_shape r)) ?slices) = length (zip ?sta ?cnt)"
      using lens ls by (simp add: coord_sub_def)
  next
    fix k assume "k < length (map2 slice_range (map nat (roi_shape r)) ?slices)"
    then have k: "k < n" using lens ls by simp
    from inside k have in_k: "roi_offset r ! k \<le> roi_offset c ! k"
      "roi_offset c ! k + roi_shape c ! k \<le> roi_offset r ! k + roi_shape r ! k"
      by (auto simp: roi_inside_def list_all_iff)
    have nn: "0 \<le> roi_shape c ! k" "0 \<le> roi_shape r ! k"
      using roi_shape_nonneg [OF c k] roi_shape_nonneg [OF r k] by simp_all
    have "slice_range (nat (roi_shape r ! k)) (?slices ! k)
        = (nat (roi_offset c ! k - roi_offset r ! k), nat (roi_shape c ! k))"
      unfolding sl [OF k] using in_k nn by (intro slice_range_inside) auto
    then show "map2 slice_range (map nat (roi_shape r)) ?slices ! k = zip ?sta ?cnt ! k"
      using k lens ls by (simp add: coord_sub_def)
  qed
  show ?thesis
    using lens ls lead spatial by (simp add: slice_ranges_def)
qed

lemma fill_blocks:
  fixes a b :: "'v ndarray"
  assumes ra: "roi_ok n ra" and rb: "roi_ok n rb"
    and fa: "array_fits a lead ra" and fb: "array_fits b lead rb"
    and c: "intersect ra rb = Some c"
  shows "fill a b ra rb
     = put_block a
         (map (Pair 0) lead
            @ zip (map nat (coord_sub (roi_offset c) (roi_offset ra))) (map nat (roi_shape c)))
         (take_block b
            (map (Pair 0) lead
               @ zip (map nat (coord_sub (roi_offset c) (roi_offset rb))) (map nat (roi_shape c))))"
proof -
  note ok = intersect_has(1) [OF ra rb c]
  note ins = intersect_inside [OF ra rb c]
  let ?sa = "map (\<lambda>(s, e). Slice s e) (get_bounding_box (roi_sub c (get_offset ra)))"
  let ?sb = "map (\<lambda>(s, e). Slice s e) (get_bounding_box (roi_sub c (get_offset rb)))"
  have lens: "length (roi_offset ra) = n" "length (roi_shape ra) = n"
    "length (roi_offset rb) = n" "length (roi_shape rb) = n"
    "length (roi_offset c) = n" "length (roi_shape c) = n"
    using ra rb ok by (simp_all add: roi_ok_def)
  have ls: "length ?sa = n" "length ?sb = n"
    using lens by (simp_all add: get_bounding_box_def roi_sub_def get_begin_def get_end_def
        get_offset_def coord_add_def coord_sub_def)
  have sha: "nd_shape a = lead @ map nat (roi_shape ra)" and shb: "nd_shape b = lead @ map nat (roi_shape rb)"
    using fa fb by (simp_all add: array_fits_def)
  have pa: "(if length (nd_shape a) > length ?sa
             then replicate (length (nd_shape a) - length ?sa) SliceAll @ ?sa else ?sa)
            = replicate (length lead) SliceAll @ ?sa"
    using lens ls by (simp add: sha)
  have pb: "(if length (nd_shape a) > length ?sa
             then replicate (length (nd_shape b) - length ?sb) SliceAll @ ?sb else ?sb)
            = replicate (length lead) SliceAll @ ?sb"
    using lens ls by (simp add: sha shb)
  have "fill a b ra rb
      = (case getitem_slices b (replicate (length lead) SliceAll @ ?sb) of
           Inl e \<Rightarrow> Inl e
         | Inr v \<Rightarrow> setitem_slices a (replicate (length lead) SliceAll @ ?sa) v)"
    unfolding fill_def Let_def c option.case pa pb ..
  then show ?thesis
    using slice_ranges_inside [OF ra ok ins(1), of lead] slice_ranges_inside [OF rb ok ins(2), of lead]
    by (simp add: getitem_slices_def setitem_slices_def sha shb)
qed

lemma fill_voxel:
  fixes a b :: "'v ndarray"
  assumes ra: "roi_ok n ra" and rb: "roi_ok n rb"
    and fa: "array_fits a lead ra" and fb: "array_fits b lead rb"
    and c: "intersect ra rb = Some c"
  shows "\<exists>a'. fill a b ra rb = Inr a' \<and> nd_shape a' = nd_shape a
     \<and> (\<forall>ch p. channel_ok lead ch \<and> roi_has ra p \<longrightarrow>
           voxel a' ra ch p
             = (if roi_has c p then voxel b rb ch p else voxel a ra ch p))"
proof -
  note ok = intersect_has(1) [OF ra rb c]
  note ins = intersect_inside [OF ra rb c]
  let ?sta = "map nat (coord_sub (roi_offset c) (roi_offset ra))"
  let ?stb = "map nat (coord_sub (roi_offset c) (roi_offset rb))"
  let ?cnt = "map nat (roi_shape c)"
  have lens: "length (roi_offset ra) = n" "length (roi_shape ra) = n"
    "length (roi_offset rb) = n" "length (roi_shape rb) = n"
    "length (roi_offset c) = n" "length (roi_shape c) = n"
    using ra rb ok by (simp_all add: roi_ok_def)
  have len: "length ?sta = length ?cnt" "length ?stb = length ?cnt"
    using lens by (simp_all add: coord_sub_def)
  let ?put = "put_block a (map (Pair 0) lead @ zip ?sta ?cnt)
                (take_block b (map (Pair 0) lead @ zip ?stb ?cnt))"
  from put_take_block_eq [OF len, of a lead b] obtain a' where put: "?put = Inr a'"
    by blast
  have f: "fill a b ra rb = Inr a'"
    using fill_blocks [OF ra rb fa fb c] put by simp
  have vox: "voxel a' ra ch p = (if roi_has c p then voxel b rb ch p else voxel a ra ch p)"
    if ch: "channel_ok lead ch" and p: "roi_has ra p" for ch p
  proof -
    let ?i = "map nat (coord_sub p (roi_offset ra))"
    have lp: "length p = n" using p roi_has_nth [OF ra] by simp
    have li: "length ?i = length ?cnt" using lp lens by (simp add: coord_sub_def)
    have pa: "roi_offset ra ! k \<le> p ! k" if "k < n" for k
      using p that roi_has_nth [OF ra] by simp
    have ca: "roi_offset ra ! k \<le> roi_offset c ! k"
      and cb: "roi_offset rb ! k \<le> roi_offset c ! k" if "k < n" for k
      using ins that by (auto simp: roi_inside_def list_all_iff)
    have cn: "0 \<le> roi_shape c ! k" if "k < n" for k
      using roi_shape_nonneg [OF ok that] .
    have pt: "(nat (roi_offset c ! k - roi_offset ra ! k) \<le> nat (p ! k - roi_offset ra ! k)
          \<and> nat (p ! k - roi_offset ra ! k)
              < nat (roi_offset c ! k - roi_offset ra ! k) + nat (roi_shape c ! k))
        = (roi_offset c ! k \<le> p ! k \<and> p ! k < roi_offset c ! k + roi_shape c ! k)"
      if "k < n" for k
      using pa [OF that] ca [OF that] cn [OF that] by auto
    have "in_ranges (zip ?sta ?cnt) ?i
        = (\<forall>k < n. nat (roi_offset c ! k - roi_offset ra ! k) \<le> nat (p ! k - roi_offset ra ! k)
              \<and> nat (p ! k - roi_offset ra ! k)
                  < nat (roi_offset c ! k - roi_offset ra ! k) + nat (roi_shape c ! k))"
      using lens lp by (auto simp: in_ranges_nth coord_sub_def)
    also have "\<dots> = (\<forall>k < n. roi_offset c ! k \<le> p ! k
        \<and> p ! k < roi_offset c ! k + roi_shape c ! k)"
      using pt by auto
    also have "\<dots> = roi_has c p"
      using lp by (simp add: roi_has_nth [OF ok])
    finally have inr: "in_ranges (zip ?sta ?cnt) ?i = roi_has c p" .
    have idx: "map2 (+) ?stb (map2 (-) ?i ?sta) = map nat (coord_sub p (roi_offset rb))"
      if hc: "roi_has c p"
    proof (intro nth_equalityI)
      show "length (map2 (+) ?stb (map2 (-) ?i ?sta)) = length (map nat (coord_sub p (roi_offset rb)))"
        using lens lp by (simp add: coord_sub_def)
    next
      fix k assume "k < length (map2 (+) ?stb (map2 (-) ?i ?sta))"
      then have k: "k < n" using lens lp by (simp add: coord_sub_def)
      have "roi_offset c ! k \<le> p ! k" using hc k roi_has_nth [OF ok] by simp
      then show "map2 (+) ?stb (map2 (-) ?i ?sta) ! k = map nat (coord_sub p (roi_offset rb)) ! k"
        using k lens lp pa [OF k] ca [OF k] cb [OF k] by (simp add: coord_sub_def)
    qed
    from put_take_block_at(2) [OF put ch len li]
    show ?thesis
      using inr idx by (simp add: voxel_def)
  qed
  have "nd_shape a' = nd_shape a"
    using put put_take_block_eq [OF len, of a lead b] by auto
  with f vox show ?thesis by blast
qed

lemma intersect_nonempty:
  assumes a: "roi_ok n ra" and b: "roi_ok n rb" and c: "intersect ra rb = Some c"
  shows "roi_has c (roi_offset c)"
proof -
  note i = intersect_Some [OF a b c]
  note ok = intersect_has(1) [OF a b c]
  have lens: "length (roi_offset ra) = n" "length (roi_offset rb) = n"
    "length (get_end ra) = n" "length (get_end rb) = n"
    using a b by (simp_all add: roi_ok_def get_end_def coord_add_def)
  have "0 < roi_shape c ! k" if "k < n" for k
    using that lens i(3) by (simp add: i(2))
  then show ?thesis
    using ok by (simp add: roi_has_nth [OF ok] roi_ok_def)
qed

lemma fill_volumes_entity:
  assumes "fill_volumes req chunk_batch batch = Inr batch'" "distinct (map fst chunk_batch)"
  shows "(map_of chunk_batch vt = None \<longrightarrow> map_of batch' vt = map_of batch vt)
     \<and> (\<forall>vol. map_of chunk_batch vt = Some vol \<longrightarrow>
          (\<exists>out roi_a a'. map_of batch vt = Some out \<and> map_of req vt = Some roi_a
             \<and> fill (vol_data out) (vol_data vol) roi_a (vol_roi vol) = Inr a'
             \<and> map_of batch' vt = Some (out\<lparr>vol_data := a'\<rparr>)))"
  using assms
proof (induction chunk_batch arbitrary: batch)
  case Nil
  then show ?case by simp
next
  case (Cons p chunk_batch)
  obtain vt0 vol0 where p: "p = (vt0, vol0)" by (cases p)
  from Cons.prems(1) obtain out0 roi0 a0 where
    out0: "map_of batch vt0 = Some out0" and roi0: "map_of req vt0 = Some roi0"
    and f0: "fill (vol_data out0) (vol_data vol0) roi0 (vol_roi vol0) = Inr a0"
    and rec: "fill_volumes req chunk_batch (AList.update vt0 (out0\<lparr>vol_data := a0\<rparr>) batch)
                = Inr batch'"
    by (auto simp: p split: option.splits sum.splits)
  from Cons.prems(2) have d: "distinct (map fst chunk_batch)" and nin: "map_of chunk_batch vt0 = None"
    by (auto simp: p map_of_eq_None_iff)
  note IH = Cons.IH [OF rec d]
  show ?case
  proof (cases "vt = vt0")
    case True
    with IH nin have "map_of batch' vt0 = Some (out0\<lparr>vol_data := a0\<rparr>)"
      by (simp add: update_conv')
    with True out0 roi0 f0 show ?thesis by (simp add: p)
  next
    case False
    with IH show ?thesis by (simp add: p update_conv')
  qed
qed

lemma fill_shape:
  assumes "roi_ok n ra" "roi_ok n rb" "array_fits a lead ra" "array_fits b lead rb"
    and "fill a b ra rb = Inr a'"
  shows "array_fits a' lead ra"
proof (cases "intersect ra rb")
  case None
  with assms show ?thesis by (simp add: fill_def)
next
  case (Some c)
  from fill_voxel [OF assms(1-4) Some] assms(3,5) show ?thesis
    by (auto simp: array_fits_def)
qed

text \<open>
  C6. Let the output array \<open>a\<close> fit the requested region of an entity and the
  array \<open>b\<close> of a sub-batch fit the region of the sub-batch, both with the same
  leading axes. If the two regions do not intersect, \<^verbatim>\<open>__fill\<close> leaves \<open>a\<close> as it
  is, and the regions have no position in common. Otherwise the intersection is
  not empty and holds exactly the positions of both regions, and
  \<^verbatim>\<open>__fill\<close> yields an array of the shape of \<open>a\<close> that has, at every channel index
  and every requested position, the voxel of \<open>b\<close> if the position lies in the
  intersection and the old voxel of \<open>a\<close> if not. When a second sub-batch is
  filled in after the first, a position that it covers has its voxel, whatever
  the first one wrote. And the loop of \<^verbatim>\<open>provide\<close> over a sub-batch calls \<^verbatim>\<open>__fill\<close>
  for every entity of the sub-batch, with the output array of the entity, the
  requested region and the region of the sub-batch.
\<close>

theorem fill_copies_intersection:
  fixes a b :: "'v ndarray"
  assumes ra: "roi_ok n roi_a" and rb: "roi_ok n roi_b"
    and fa: "array_fits a lead roi_a" and fb: "array_fits b lead roi_b"
  shows "(intersect roi_a roi_b = None \<longrightarrow>
            fill a b roi_a roi_b = Inr a \<and> (\<forall>p. \<not> (roi_has roi_a p \<and> roi_has roi_b p)))
     \<and> (\<forall>common. intersect roi_a roi_b = Some common \<longrightarrow>
          roi_has common (roi_offset common)
          \<and> (\<forall>p. roi_has common p = (roi_has roi_a p \<and> roi_has roi_b p))
          \<and> (\<exists>a'. fill a b roi_a roi_b = Inr a' \<and> nd_shape a' = nd_shape a
               \<and> (\<forall>ch p. channel_ok lead ch \<and> roi_has roi_a p \<longrightarrow>
                     voxel a' roi_a ch p
                       = (if roi_has common p then voxel b roi_b ch p else voxel a roi_a ch p))))
     \<and> (\<forall>a1 a2 (b2 :: 'v ndarray) roi_2 ch p.
          roi_ok n roi_2 \<and> array_fits b2 lead roi_2
          \<and> fill a b roi_a roi_b = Inr a1 \<and> fill a1 b2 roi_a roi_2 = Inr a2
          \<and> channel_ok lead ch \<and> roi_has roi_a p \<and> roi_has roi_2 p \<longrightarrow>
          voxel a2 roi_a ch p = voxel b2 roi_2 ch p)
     \<and> (\<forall>req (chunk_batch :: ('v, 'r) batch) batch batch' vt vol.
          fill_volumes req chunk_batch batch = Inr batch' \<and> distinct (map fst chunk_batch)
          \<and> map_of chunk_batch vt = Some vol \<longrightarrow>
          (\<exists>out r a'. map_of batch vt = Some out \<and> map_of req vt = Some r
             \<and> fill (vol_data out) (vol_data vol) r (vol_roi vol) = Inr a'
             \<and> map_of batch' vt = Some (out\<lparr>vol_data := a'\<rparr>)))"
proof (intro conjI allI impI)
  assume "intersect roi_a roi_b = None"
  then show "fill a b roi_a roi_b = Inr a" by (simp add: fill_def)
next
  fix p assume "intersect roi_a roi_b = None"
  from intersect_None [OF ra rb this] show "\<not> (roi_has roi_a p \<and> roi_has roi_b p)" .
next
  fix common assume "intersect roi_a roi_b = Some common"
  from intersect_nonempty [OF ra rb this] show "roi_has common (roi_offset common)" .
next
  fix common p assume "intersect roi_a roi_b = Some common"
  from intersect_has(2) [OF ra rb this]
  show "roi_has common p = (roi_has roi_a p \<and> roi_has roi_b p)" .
next
  fix common assume "intersect roi_a roi_b = Some common"
  from fill_voxel [OF ra rb fa fb this]
  show "\<exists>a'. fill a b roi_a roi_b = Inr a' \<and> nd_shape a' = nd_shape a
       \<and> (\<forall>ch p. channel_ok lead ch \<and> roi_has roi_a p \<longrightarrow>
             voxel a' roi_a ch p
               = (if roi_has common p then voxel b roi_b ch p else voxel a roi_a ch p))" .
next
  fix a1 a2 and b2 :: "'v ndarray" and roi_2 ch p
  assume h: "roi_ok n roi_2 \<and> array_fits b2 lead roi_2
          \<and> fill a b roi_a roi_b = Inr a1 \<and> fill a1 b2 roi_a roi_2 = Inr a2
          \<and> channel_ok lead ch \<and> roi_has roi_a p \<and> roi_has roi_2 p"
  then have r2: "roi_ok n roi_2" and f2: "array_fits b2 lead roi_2"
    and fill1: "fill a b roi_a roi_b = Inr a1" and fill2: "fill a1 b2 roi_a roi_2 = Inr a2"
    and ch: "channel_ok lead ch" and pa: "roi_has roi_a p" and p2: "roi_has roi_2 p"
    by simp_all
  have f1: "array_fits a1 lead roi_a" by (rule fill_shape [OF ra rb fa fb fill1])
  obtain c2 where c2: "intersect roi_a roi_2 = Some c2"
    using intersect_None [OF ra r2, of p] pa p2 by (cases "intersect roi_a roi_2") auto
  have "roi_has c2 p" using intersect_has(2) [OF ra r2 c2] pa p2 by simp
  with fill_voxel [OF ra r2 f1 f2 c2] fill2 ch pa
  show "voxel a2 roi_a ch p = voxel b2 roi_2 ch p" by auto
next
  fix req and chunk_batch batch batch' :: "('v, 'r) batch" and vt vol
  assume "fill_volumes req chunk_batch batch = Inr batch' \<and> distinct (map fst chunk_batch)
          \<and> map_of chunk_batch vt = Some vol"
  with fill_volumes_entity [of req chunk_batch batch batch' vt]
  show "\<exists>out r a'. map_of batch vt = Some out \<and> map_of req vt = Some r
             \<and> fill (vol_data out) (vol_data vol) r (vol_roi vol) = Inr a'
             \<and> map_of batch' vt = Some (out\<lparr>vol_data := a'\<rparr>)"
    by blast
qed

theorem fill_copies_intersection_witness:
  "roi_ok 1 request_roi \<and> roi_ok 1 last_chunk_roi
   \<and> array_fits zeros_3_100 [3] request_roi \<and> array_fits ones_3_30 [3] last_chunk_roi
   \<and> intersect request_roi last_chunk_roi = Some \<lparr>roi_offset = [90], roi_shape = [10]\<rparr>
   \<and> (\<exists>a'. fill zeros_3_100 ones_3_30 request_roi last_chunk_roi = Inr a'
         \<and> nd_shape a' = [3, 100]
         \<and> voxel a' request_roi [2] [95] = 1 \<and> voxel a' request_roi [2] [50] = 0)"
proof -
  have ra: "roi_ok 1 request_roi" and rb: "roi_ok 1 last_chunk_roi"
    by (simp_all add: roi_ok_def request_roi_def last_chunk_roi_def)
  have fa: "array_fits zeros_3_100 [3] request_roi"
    and fb: "array_fits ones_3_30 [3] last_chunk_roi"
    by (simp_all add: array_fits_def zeros_3_100_def ones_3_30_def request_roi_def
        last_chunk_roi_def)
  have c: "intersect request_roi last_chunk_roi = Some \<lparr>roi_offset = [90], roi_shape = [10]\<rparr>"
    by (simp add: intersect_def request_roi_def last_chunk_roi_def geometry_defs)
  have ch: "channel_ok [3] [2]"
    by (simp add: channel_ok_def)
  have p: "roi_has request_roi [95]" "roi_has request_roi [50]"
    "roi_has \<lparr>roi_offset = [90], roi_shape = [10]\<rparr> [95]"
    "\<not> roi_has \<lparr>roi_offset = [90], roi_shape = [10]\<rparr> [50]"
    by (simp_all add: roi_has_def request_roi_def get_bounding_box_def geometry_defs)
  have v: "voxel ones_3_30 last_chunk_roi [2] [95] = 1" "voxel zeros_3_100 request_roi [2] [50] = 0"
    by (simp_all add: voxel_def ones_3_30_def zeros_3_100_def)
  from fill_copies_intersection [OF ra rb fa fb] c
  obtain a' where a': "fill zeros_3_100 ones_3_30 request_roi last_chunk_roi = Inr a'"
    "nd_shape a' = nd_shape zeros_3_100"
    "\<forall>ch p. channel_ok [3] ch \<and> roi_has request_roi p \<longrightarrow>
        voxel a' request_roi ch p
          = (if roi_has \<lparr>roi_offset = [90], roi_shape = [10]\<rparr> p
             then voxel ones_3_30 last_chunk_roi ch p else voxel zeros_3_100 request_roi ch p)"
    by blast
  from a'(3) ch p v have "voxel a' request_roi [2] [95] = 1" "voxel a' request_roi [2] [50] = 0"
    by simp_all
  with a'(1,2) ra rb fa fb c show ?thesis
    by (simp add: zeros_3_100_def)
qed

end
